theory Spec2Isabelle
  imports Main
begin

section \<open>The FaderPort driver (faderport.py)\<close>

text \<open>
  A shallow embedding of \<^verbatim>\<open>faderport.py\<close>: the button registry and its two lookup
  tables, the glyph table, the \<^verbatim>\<open>FaderPort\<close> base class with its six hooks, and the
  lighting routines. Python integers are \<open>int\<close>. Python strings are \<open>string\<close>; the
  case conversions \<^verbatim>\<open>str.upper\<close> and \<^verbatim>\<open>str.title\<close> are modelled on ASCII letters and
  leave every other character as it is.
\<close>

subsection \<open>Python values and exceptions\<close>

datatype error =
    KeyError
  | IndexError
  | AttributeError
  | StopIteration
  | HookError string

text \<open>
  \<^verbatim>\<open>{k: v for ...}\<close>: entries are stored from left to right, a later entry replaces
  an earlier one with the same key.
\<close>

definition dict_of :: "('k \<times> 'v) list \<Rightarrow> ('k \<rightharpoonup> 'v)" where
  "dict_of kvs = foldl (\<lambda>m kv. m(fst kv \<mapsto> snd kv)) Map.empty kvs"

text \<open>\<^verbatim>\<open>xs[i]\<close> on a list: a negative index counts from the end, anything else out of
  range raises \<^verbatim>\<open>IndexError\<close>.\<close>

definition py_index :: "'a list \<Rightarrow> int \<Rightarrow> error + 'a" where
  "py_index xs i =
     (if 0 \<le> i \<and> i < int (length xs) then Inr (xs ! nat i)
      else if i < 0 \<and> - int (length xs) \<le> i then Inr (xs ! nat (int (length xs) + i))
      else Inl IndexError)"

subsection \<open>ASCII case conversion\<close>

definition is_lower :: "char \<Rightarrow> bool" where
  "is_lower c \<longleftrightarrow> (97::nat) \<le> of_char c \<and> of_char c \<le> (122::nat)"

definition is_upper :: "char \<Rightarrow> bool" where
  "is_upper c \<longleftrightarrow> (65::nat) \<le> of_char c \<and> of_char c \<le> (90::nat)"

definition is_cased :: "char \<Rightarrow> bool" where
  "is_cased c \<longleftrightarrow> is_lower c \<or> is_upper c"

definition to_upper :: "char \<Rightarrow> char" where
  "to_upper c = (if is_lower c then char_of (of_char c - (32::nat)) else c)"

definition to_lower :: "char \<Rightarrow> char" where
  "to_lower c = (if is_upper c then char_of (of_char c + (32::nat)) else c)"

definition upper :: "string \<Rightarrow> string" where
  "upper s = map to_upper s"

text \<open>The driver never lowercases a string; \<open>lower\<close> serves to compare two names with
  their case ignored.\<close>

definition lower :: "string \<Rightarrow> string" where
  "lower s = map to_lower s"

text \<open>
  \<^verbatim>\<open>str.title\<close>: a cased character that follows a cased character is lowercased, any
  other character is uppercased (a character that starts a word).
\<close>

fun title_from :: "bool \<Rightarrow> string \<Rightarrow> string" where
  "title_from previous_is_cased [] = []"
| "title_from previous_is_cased (c # cs) =
     (if previous_is_cased then to_lower c else to_upper c) # title_from (is_cased c) cs"

definition title :: "string \<Rightarrow> string" where
  "title s = title_from False s"

subsection \<open>The button registry\<close>

record Button =
  name :: string
  press :: int

definition BUTTONS :: "Button list" where
  "BUTTONS = [
    \<lparr>name = ''Solo'', press = 8\<rparr>,
    \<lparr>name = ''Mute'', press = 16\<rparr>,
    \<lparr>name = ''Arm'', press = 0\<rparr>,
    \<lparr>name = ''Shift'', press = 70\<rparr>,
    \<lparr>name = ''Bypass'', press = 3\<rparr>,
    \<lparr>name = ''Touch'', press = 77\<rparr>,
    \<lparr>name = ''Write'', press = 75\<rparr>,
    \<lparr>name = ''Read'', press = 74\<rparr>,
    \<lparr>name = ''Prev'', press = 46\<rparr>,
    \<lparr>name = ''Knob'', press = 32\<rparr>,
    \<lparr>name = ''Next'', press = 47\<rparr>,
    \<lparr>name = ''Link'', press = 5\<rparr>,
    \<lparr>name = ''Pan'', press = 42\<rparr>,
    \<lparr>name = ''Channel'', press = 54\<rparr>,
    \<lparr>name = ''Scroll'', press = 56\<rparr>,
    \<lparr>name = ''Master'', press = 58\<rparr>,
    \<lparr>name = ''Click'', press = 59\<rparr>,
    \<lparr>name = ''Section'', press = 60\<rparr>,
    \<lparr>name = ''Marker'', press = 61\<rparr>,
    \<lparr>name = ''Loop'', press = 86\<rparr>,
    \<lparr>name = ''Rewind'', press = 91\<rparr>,
    \<lparr>name = ''Forward'', press = 92\<rparr>,
    \<lparr>name = ''Stop'', press = 93\<rparr>,
    \<lparr>name = ''Play'', press = 94\<rparr>,
    \<lparr>name = ''Record'', press = 95\<rparr>,
    \<lparr>name = ''Pedal'', press = 102\<rparr>
  ]"

definition button_from_name_tab :: "string \<rightharpoonup> Button" where
  "button_from_name_tab = dict_of (map (\<lambda>x. (name x, x)) BUTTONS)"

definition button_from_press_tab :: "int \<rightharpoonup> Button" where
  "button_from_press_tab = dict_of (map (\<lambda>x. (press x, x)) BUTTONS)"

text \<open>\<^verbatim>\<open>_button_from_name[name.title()]\<close>: a missing key raises \<^verbatim>\<open>KeyError\<close>.\<close>

definition button_from_name :: "string \<Rightarrow> error + Button" where
  "button_from_name nm =
     (case button_from_name_tab (title nm) of
        None \<Rightarrow> Inl KeyError
      | Some b \<Rightarrow> Inr b)"

text \<open>\<^verbatim>\<open>_button_from_press.get(press, None)\<close>: a missing key gives \<^verbatim>\<open>None\<close>.\<close>

definition button_from_press :: "int \<Rightarrow> Button option" where
  "button_from_press p = button_from_press_tab p"

subsection \<open>The glyph table\<close>

definition CHARACTERS_items :: "(string \<times> int list) list" where
  "CHARACTERS_items = [
    (''0'', [0, 1, 2, 3, 4, 7, 11, 14, 15, 16, 17, 18]),
    (''1'', [1, 2, 4, 6, 13, 15, 16, 17, 18]),
    (''2'', [1, 2, 4, 7, 10, 12, 15, 16, 17, 18]),
    (''3'', [1, 2, 4, 7, 8, 10, 11, 14, 16, 17]),
    (''4'', [2, 5, 8, 10, 11, 12, 13, 14, 18]),
    (''5'', [1, 2, 4, 7, 8, 13, 15, 16, 17, 18]),
    (''6'', [0, 1, 2, 3, 4, 8, 10, 11, 14, 15, 16, 17, 18]),
    (''7'', [0, 1, 2, 3, 7, 13, 16]),
    (''8'', [0, 1, 2, 3, 5, 6, 12, 13, 15, 16, 17, 18]),
    (''9'', [0, 1, 2, 3, 4, 7, 8, 10, 14, 15, 16, 17, 18]),
    (''A'', [4, 5, 7, 10, 11, 12, 13, 14, 15, 18, 19, 23]),
    (''B'', [4, 5, 6, 7, 10, 12, 13, 14, 15, 18, 20, 21, 22, 23]),
    (''C'', [4, 5, 7, 10, 14, 15, 18, 20, 21, 22]),
    (''D'', [4, 5, 6, 7, 10, 11, 14, 15, 18, 20, 21, 22, 23]),
    (''E'', [4, 5, 6, 7, 13, 14, 15, 20, 21, 22, 23]),
    (''F'', [4, 5, 6, 7, 13, 14, 15, 23])
  ]"

definition CHARACTERS :: "string \<rightharpoonup> int list" where
  "CHARACTERS = dict_of CHARACTERS_items"

subsection \<open>Outcomes of a method call\<close>

text \<open>
  A method either returns or raises. In both cases the mutations made so far stay, so
  both outcomes carry the state.
\<close>

datatype 's outcome = Done 's | Raised error 's

fun state_of :: "'s outcome \<Rightarrow> 's" where
  "state_of (Done s) = s"
| "state_of (Raised e s) = s"

text \<open>Sequencing of two statements: the second runs only if the first returns.\<close>

fun and_then :: "'s outcome \<Rightarrow> ('s \<Rightarrow> 's outcome) \<Rightarrow> 's outcome" where
  "and_then (Done s) f = f s"
| "and_then (Raised e s) f = Raised e s"

text \<open>\<^verbatim>\<open>for x in xs: body(x)\<close>, left at the first exception.\<close>

fun for_each :: "('a \<Rightarrow> 's \<Rightarrow> 's outcome) \<Rightarrow> 'a list \<Rightarrow> 's \<Rightarrow> 's outcome" where
  "for_each body [] s = Done s"
| "for_each body (x # xs) s = and_then (body x s) (for_each body xs)"

subsection \<open>Messages, ports and the driver's state\<close>

text \<open>
  The three message types the driver reads or builds, with their attributes
  (\<^verbatim>\<open>pitch\<close>; \<^verbatim>\<open>note\<close>, \<^verbatim>\<open>velocity\<close>; \<^verbatim>\<open>control\<close>, \<^verbatim>\<open>value\<close>), and any other type by its name.
\<close>

datatype msg =
    Pitchwheel int
  | NoteOn int int
  | ControlChange int int
  | OtherMsg string

text \<open>
  The transport (mido) is outside the driver. An output port is modelled by the calls
  made on it, an input port by its \<^verbatim>\<open>callback\<close> attribute (\<open>True\<close> when it is the
  driver's \<^verbatim>\<open>_message_callback\<close>, \<open>False\<close> when it is \<^verbatim>\<open>None\<close>); a call on a port
  that exists returns.
\<close>

datatype out_call = Send msg | Reset

record out_port =
  out_calls :: "out_call list"
  out_closed :: bool

record in_port =
  callback :: bool
  in_closed :: bool

text \<open>What \<^verbatim>\<open>print\<close> wrote, one entry per line, with the values that were printed.\<close>

datatype line =
    Button_not_found int
  | Unhandled msg
  | FaderPort_opened
  | FaderPort_closing
  | Pan_turned bool
  | Button_line string bool
  | Fader_touch_line bool
  | Fader_line int

text \<open>
  The attributes of a \<^verbatim>\<open>FaderPort\<close> object (\<open>p_fader\<close> is \<^verbatim>\<open>_fader\<close>, \<open>p_msb\<close> is
  \<^verbatim>\<open>_msb\<close>), and the standard output. A subclass extends the record.
\<close>

record state =
  inport :: "in_port option"
  outport :: "out_port option"
  p_fader :: int
  p_msb :: int
  stdout :: "line list"

text \<open>The six abstract methods, supplied by the subclass.\<close>

record 's hooks =
  on_open :: "'s \<Rightarrow> 's outcome"
  on_close :: "'s \<Rightarrow> 's outcome"
  on_rotary :: "int \<Rightarrow> 's \<Rightarrow> 's outcome"
  on_button :: "Button \<Rightarrow> bool \<Rightarrow> 's \<Rightarrow> 's outcome"
  on_fader_touch :: "bool \<Rightarrow> 's \<Rightarrow> 's outcome"
  on_fader :: "int \<Rightarrow> 's \<Rightarrow> 's outcome"

text \<open>\<^verbatim>\<open>FaderPort.__init__\<close>\<close>

definition init :: state where
  "init = \<lparr>inport = None, outport = None, p_fader = - 8192, p_msb = 0, stdout = []\<rparr>"

definition print :: "line \<Rightarrow> 'x state_scheme \<Rightarrow> 'x state_scheme" where
  "print l s = s\<lparr>stdout := stdout s @ [l]\<rparr>"

text \<open>\<^verbatim>\<open>self.outport.send(m)\<close>; \<^verbatim>\<open>self.outport\<close> is \<^verbatim>\<open>None\<close> until \<^verbatim>\<open>open\<close>.\<close>

definition outport_send :: "msg \<Rightarrow> 'x state_scheme \<Rightarrow> 'x state_scheme outcome" where
  "outport_send m s =
     (case outport s of
        None \<Rightarrow> Raised AttributeError s
      | Some p \<Rightarrow> Done (s\<lparr>outport := Some (p\<lparr>out_calls := out_calls p @ [Send m]\<rparr>)\<rparr>))"

definition outport_reset :: "'x state_scheme \<Rightarrow> 'x state_scheme outcome" where
  "outport_reset s =
     (case outport s of
        None \<Rightarrow> Raised AttributeError s
      | Some p \<Rightarrow> Done (s\<lparr>outport := Some (p\<lparr>out_calls := out_calls p @ [Reset]\<rparr>)\<rparr>))"

definition outport_close :: "'x state_scheme \<Rightarrow> 'x state_scheme outcome" where
  "outport_close s =
     (case outport s of
        None \<Rightarrow> Raised AttributeError s
      | Some p \<Rightarrow> Done (s\<lparr>outport := Some (p\<lparr>out_closed := True\<rparr>)\<rparr>))"

definition inport_close :: "'x state_scheme \<Rightarrow> 'x state_scheme outcome" where
  "inport_close s =
     (case inport s of
        None \<Rightarrow> Raised AttributeError s
      | Some p \<Rightarrow> Done (s\<lparr>inport := Some (p\<lparr>in_closed := True\<rparr>)\<rparr>))"

text \<open>\<^verbatim>\<open>self.inport.callback = cb\<close>\<close>

definition inport_set_callback :: "bool \<Rightarrow> 'x state_scheme \<Rightarrow> 'x state_scheme outcome" where
  "inport_set_callback cb s =
     (case inport s of
        None \<Rightarrow> Raised AttributeError s
      | Some p \<Rightarrow> Done (s\<lparr>inport := Some (p\<lparr>callback := cb\<rparr>)\<rparr>))"

subsection \<open>The fader property\<close>

definition fader :: "'x state_scheme \<Rightarrow> int" where
  "fader s = p_fader s"

text \<open>The setter stores the clamped value first, then sends it.\<close>

definition fader_set :: "int \<Rightarrow> 'x state_scheme \<Rightarrow> 'x state_scheme outcome" where
  "fader_set v s =
     (let s1 = s\<lparr>p_fader := (if v < - 8192 then - 8192 else if v > 8191 then 8191 else v)\<rparr>
      in outport_send (Pitchwheel (p_fader s1)) s1)"

subsection \<open>Lights\<close>

definition light_on :: "Button \<Rightarrow> 'x state_scheme \<Rightarrow> 'x state_scheme outcome" where
  "light_on button s = outport_send (NoteOn (press button) 127) s"

definition light_off :: "Button \<Rightarrow> 'x state_scheme \<Rightarrow> 'x state_scheme outcome" where
  "light_off button s = outport_send (NoteOn (press button) 0) s"

definition all_off :: "'x state_scheme \<Rightarrow> 'x state_scheme outcome" where
  "all_off s = for_each light_off BUTTONS s"

definition all_on :: "'x state_scheme \<Rightarrow> 'x state_scheme outcome" where
  "all_on s = for_each light_on BUTTONS s"

definition char_on :: "string \<Rightarrow> 'x state_scheme \<Rightarrow> 'x state_scheme outcome" where
  "char_on c s =
     (case CHARACTERS (upper c) of
        None \<Rightarrow> Done s
      | Some indices \<Rightarrow>
          for_each (\<lambda>i s'. case py_index BUTTONS i of
                              Inl e \<Rightarrow> Raised e s'
                            | Inr button \<Rightarrow> light_on button s') indices s)"

subsection \<open>Lifecycle and the inbound callback\<close>

definition close :: "'x state_scheme hooks \<Rightarrow> 'x state_scheme \<Rightarrow> 'x state_scheme outcome" where
  "close h s =
     and_then (on_close h s) (\<lambda>s.
     and_then (inport_set_callback False s) (\<lambda>s.
     and_then (fader_set (- 8192) s) (\<lambda>s.
     and_then (all_off s) (\<lambda>s.
     and_then (outport_reset s) (\<lambda>s.
     and_then (inport_close s) (\<lambda>s.
     outport_close s))))))"

definition message_callback ::
  "'x state_scheme hooks \<Rightarrow> msg \<Rightarrow> 'x state_scheme \<Rightarrow> 'x state_scheme outcome" where
  "message_callback h m s =
     (case m of
        Pitchwheel pitch \<Rightarrow>
          (let s1 = s\<lparr>p_fader := pitch\<rparr> in on_fader h (p_fader s1) s1)
      | NoteOn note velocity \<Rightarrow>
          if note = 104 then on_fader_touch h (velocity \<noteq> 0) s
          else (case button_from_press note of
                  Some button \<Rightarrow> on_button h button (velocity \<noteq> 0) s
                | None \<Rightarrow> Done (print (Button_not_found note) s))
      | ControlChange control val \<Rightarrow>
          if control = 16 then on_rotary h (if val > 64 then - 1 else 1) s
          else Done (print (Unhandled m) s)
      | OtherMsg t \<Rightarrow> Done (print (Unhandled m) s))"

subsection \<open>Cyclic iterators and the chase\<close>

text \<open>
  \<^verbatim>\<open>itertools.cycle(xs)\<close> as the saved items and the index of the item that \<^verbatim>\<open>next\<close>
  gives; \<^verbatim>\<open>next\<close> on the cycle of an empty list raises \<^verbatim>\<open>StopIteration\<close>.
\<close>

record 'a cycle_it =
  items :: "'a list"
  pos :: nat

definition cycle :: "'a list \<Rightarrow> 'a cycle_it" where
  "cycle xs = \<lparr>items = xs, pos = 0\<rparr>"

definition cycle_next :: "'a cycle_it \<Rightarrow> ('a \<times> 'a cycle_it) option" where
  "cycle_next it =
     (if items it = [] then None
      else Some (items it ! pos it, it\<lparr>pos := (pos it + 1) mod length (items it)\<rparr>))"

text \<open>\<^verbatim>\<open>consume(iterator, n)\<close> with a number \<open>n\<close>: advance the iterator \<open>n\<close> steps, or
  until it is exhausted.\<close>

fun consume :: "'a cycle_it \<Rightarrow> nat \<Rightarrow> 'a cycle_it" where
  "consume it 0 = it"
| "consume it (Suc n) =
     (case cycle_next it of
        None \<Rightarrow> it
      | Some (x, it') \<Rightarrow> consume it' n)"

text \<open>A list display whose elements may raise: the first exception wins.\<close>

fun list_of_results :: "(error + 'a) list \<Rightarrow> error + 'a list" where
  "list_of_results [] = Inr []"
| "list_of_results (r # rs) =
     (case r of
        Inl e \<Rightarrow> Inl e
      | Inr x \<Rightarrow> (case list_of_results rs of Inl e \<Rightarrow> Inl e | Inr xs \<Rightarrow> Inr (x # xs)))"

definition chase_seq :: "error + Button list" where
  "chase_seq = list_of_results [
     button_from_name ''Solo'',
     button_from_name ''Mute'',
     button_from_name ''Arm'',
     button_from_name ''Shift'',
     button_from_name ''Read'',
     button_from_name ''Scroll'',
     button_from_name ''Marker'',
     button_from_name ''Section'',
     button_from_name ''Click'',
     button_from_name ''Master'',
     button_from_name ''Link'',
     button_from_name ''Bypass'']"

text \<open>\<^verbatim>\<open>num_lights if num_lights in [1, 2, 3, 4] else 2\<close>\<close>

definition chase_num_lights :: "int \<Rightarrow> int" where
  "chase_num_lights num_lights = (if num_lights \<in> set [1, 2, 3, 4] then num_lights else 2)"

text \<open>
  The iterators \<^verbatim>\<open>its\<close> as the tick loop finds them: one cycle per light, every one but
  the first advanced by \<^verbatim>\<open>i * (len(seq) // num_lights)\<close>. The argument is the
  \<^verbatim>\<open>num_lights\<close> already replaced by the line above.
\<close>

definition chase_its :: "'a list \<Rightarrow> int \<Rightarrow> 'a cycle_it list" where
  "chase_its seq num_lights =
     map (\<lambda>(i, it). if i \<noteq> 0 then consume it (i * nat (int (length seq) div num_lights)) else it)
       (enumerate 0 (replicate (nat num_lights) (cycle seq)))"

text \<open>
  The first half of a tick: \<^verbatim>\<open>for it in its: button = next(it); self.light_on(button)\<close>.
  The iterators are advanced in place, so they are returned with the state.
\<close>

fun chase_on_phase ::
  "Button cycle_it list \<Rightarrow> 'x state_scheme \<Rightarrow> (Button cycle_it list \<times> 'x state_scheme) outcome" where
  "chase_on_phase [] s = Done ([], s)"
| "chase_on_phase (it # its) s =
     (case cycle_next it of
        None \<Rightarrow> Raised StopIteration (it # its, s)
      | Some (button, it') \<Rightarrow>
          (case light_on button s of
             Raised e s' \<Rightarrow> Raised e (it' # its, s')
           | Done s' \<Rightarrow>
               (case chase_on_phase its s' of
                  Raised e (its', s'') \<Rightarrow> Raised e (it' # its', s'')
                | Done (its', s'') \<Rightarrow> Done (it' # its', s''))))"

text \<open>
  \<^verbatim>\<open>for x in range(ticks)\<close>: the lights under the iterators go on, then, after
  \<^verbatim>\<open>time.sleep(duration)\<close> (which changes nothing in the state), all lights go off.
\<close>

fun chase_ticks ::
  "nat \<Rightarrow> Button cycle_it list \<Rightarrow> 'x state_scheme \<Rightarrow> 'x state_scheme outcome" where
  "chase_ticks 0 its s = Done s"
| "chase_ticks (Suc n) its s =
     (case chase_on_phase its s of
        Raised e (its', s') \<Rightarrow> Raised e s'
      | Done (its', s') \<Rightarrow> and_then (all_off s') (chase_ticks n its'))"

definition chase :: "int \<Rightarrow> int \<Rightarrow> 'x state_scheme \<Rightarrow> 'x state_scheme outcome" where
  "chase num_lights ticks s =
     (case chase_seq of
        Inl e \<Rightarrow> Raised e s
      | Inr seq \<Rightarrow> chase_ticks (nat ticks) (chase_its seq (chase_num_lights num_lights)) s)"

subsection \<open>Opening, and the other animations\<close>

text \<open>
  \<^verbatim>\<open>open\<close>, where the transport finds the device and returns two fresh ports (what
  mido does when it does not is outside the driver). \<^verbatim>\<open>time.sleep\<close> changes nothing in
  the state.
\<close>

definition open_ports :: "'x state_scheme hooks \<Rightarrow> 'x state_scheme \<Rightarrow> 'x state_scheme outcome" where
  "open_ports h s =
     (let s1 = s\<lparr>inport := Some \<lparr>callback = False, in_closed = False\<rparr>\<rparr>;
          s2 = s1\<lparr>outport := Some \<lparr>out_calls = [], out_closed = False\<rparr>\<rparr>
      in and_then (inport_set_callback True s2) (on_open h))"

definition snake :: "'x state_scheme \<Rightarrow> 'x state_scheme outcome" where
  "snake s = and_then (for_each light_on BUTTONS s) (for_each light_off (rev BUTTONS))"

definition blink :: "int \<Rightarrow> 'x state_scheme \<Rightarrow> 'x state_scheme outcome" where
  "blink n s = for_each (\<lambda>i s'. and_then (all_on s') all_off) [0..<nat n] s"

definition countdown :: "'x state_scheme \<Rightarrow> 'x state_scheme outcome" where
  "countdown s = for_each (\<lambda>c s'. and_then (char_on [c] s') all_off) ''9876543210'' s"

subsection \<open>The subclass TestFaderPort\<close>

record test_state = state +
  p_shift :: bool
  cycling :: bool
  should_exit :: bool

definition TestFaderPort_init :: test_state where
  "TestFaderPort_init =
     \<lparr>inport = None, outport = None, p_fader = - 8192, p_msb = 0, stdout = [],
      p_shift = False, cycling = False, should_exit = False\<rparr>"

definition test_on_open :: "test_state \<Rightarrow> test_state outcome" where
  "test_on_open s = Done (print FaderPort_opened s)"

definition test_on_close :: "test_state \<Rightarrow> test_state outcome" where
  "test_on_close s = Done (print FaderPort_closing s)"

definition test_on_rotary :: "int \<Rightarrow> test_state \<Rightarrow> test_state outcome" where
  "test_on_rotary direction s =
     (let s1 = print (Pan_turned (direction > 0)) s
      in if p_shift s1 then fader_set (fader s1 + direction * 32 * 10) s1 else Done s1)"

definition test_on_button :: "Button \<Rightarrow> bool \<Rightarrow> test_state \<Rightarrow> test_state outcome" where
  "test_on_button button pressed s =
     (let s1 = print (Button_line (name button) pressed) s;
          s2 = (if name button = ''Shift'' then s1\<lparr>p_shift := \<not> p_shift s1\<rparr> else s1);
          s3 = (if name button = ''Mute'' \<and> \<not> pressed then s2\<lparr>should_exit := True\<rparr> else s2)
      in if \<not> cycling s3
         then (if pressed then light_on button s3 else light_off button s3)
         else Done s3)"

definition test_on_fader_touch :: "bool \<Rightarrow> test_state \<Rightarrow> test_state outcome" where
  "test_on_fader_touch touched s = Done (print (Fader_touch_line touched) s)"

definition test_on_fader :: "int \<Rightarrow> test_state \<Rightarrow> test_state outcome" where
  "test_on_fader v s = Done (print (Fader_line (fader s)) s)"

definition TestFaderPort :: "test_state hooks" where
  "TestFaderPort =
     \<lparr>on_open = test_on_open, on_close = test_on_close, on_rotary = test_on_rotary,
      on_button = test_on_button, on_fader_touch = test_on_fader_touch,
      on_fader = test_on_fader\<rparr>"

text \<open>A subclass whose \<^verbatim>\<open>on_close\<close> raises, and whose other hooks do nothing.\<close>

definition Failing_on_close :: "state hooks" where
  "Failing_on_close =
     \<lparr>on_open = Done, on_close = Raised (HookError ''on_close''), on_rotary = (\<lambda>d. Done),
      on_button = (\<lambda>b p. Done), on_fader_touch = (\<lambda>t. Done), on_fader = (\<lambda>v. Done)\<rparr>"

subsection \<open>Sequences of calls on a driver\<close>

text \<open>
  The methods a client calls, and the message callback the transport calls. An
  exception goes to the caller, who may go on using the object, so a sequence of calls
  continues from the state the exception left.
\<close>

datatype call =
    Open
  | Close
  | Message msg
  | Fader_set int
  | Light_on Button
  | Light_off Button
  | All_on
  | All_off
  | Snake
  | Blink int
  | Char_on string
  | Countdown
  | Chase int int

fun do_call :: "'x state_scheme hooks \<Rightarrow> call \<Rightarrow> 'x state_scheme \<Rightarrow> 'x state_scheme outcome" where
  "do_call h Open s = open_ports h s"
| "do_call h Close s = close h s"
| "do_call h (Message m) s = message_callback h m s"
| "do_call h (Fader_set v) s = fader_set v s"
| "do_call h (Light_on b) s = light_on b s"
| "do_call h (Light_off b) s = light_off b s"
| "do_call h All_on s = all_on s"
| "do_call h All_off s = all_off s"
| "do_call h Snake s = snake s"
| "do_call h (Blink n) s = blink n s"
| "do_call h (Char_on c) s = char_on c s"
| "do_call h Countdown s = countdown s"
| "do_call h (Chase num_lights ticks) s = chase num_lights ticks s"

fun run :: "'x state_scheme hooks \<Rightarrow> call list \<Rightarrow> 'x state_scheme \<Rightarrow> 'x state_scheme" where
  "run h [] s = s"
| "run h (c # cs) s = run h cs (state_of (do_call h c s))"

subsection \<open>Predicates used in the properties\<close>

definition in_fader_range :: "int \<Rightarrow> bool" where
  "in_fader_range v \<longleftrightarrow> - 8192 \<le> v \<and> v \<le> 8191"

text \<open>A pitchwheel message of the transport carries a signed 14-bit pitch.\<close>

fun pitch_is_14_bit :: "call \<Rightarrow> bool" where
  "pitch_is_14_bit (Message (Pitchwheel pitch)) = in_fader_range pitch"
| "pitch_is_14_bit c = True"

fun fader_call_ok :: "out_call \<Rightarrow> bool" where
  "fader_call_ok (Send (Pitchwheel pitch)) = in_fader_range pitch"
| "fader_call_ok c = True"

text \<open>The cached fader value and every fader value sent so far are in range.\<close>

definition fader_ok :: "'x state_scheme \<Rightarrow> bool" where
  "fader_ok s \<longleftrightarrow>
     in_fader_range (p_fader s) \<and>
     (case outport s of None \<Rightarrow> True | Some p \<Rightarrow> list_all fader_call_ok (out_calls p))"

definition keeps :: "('s \<Rightarrow> bool) \<Rightarrow> ('s \<Rightarrow> 's outcome) \<Rightarrow> bool" where
  "keeps P f \<longleftrightarrow> (\<forall>s. P s \<longrightarrow> P (state_of (f s)))"

definition hooks_keep :: "('s \<Rightarrow> bool) \<Rightarrow> 's hooks \<Rightarrow> bool" where
  "hooks_keep P h \<longleftrightarrow>
     keeps P (on_open h) \<and> keeps P (on_close h) \<and> (\<forall>d. keeps P (on_rotary h d)) \<and>
     (\<forall>b p. keeps P (on_button h b p)) \<and> (\<forall>t. keeps P (on_fader_touch h t)) \<and>
     (\<forall>v. keeps P (on_fader h v))"

definition hex_digits :: "char set" where
  "hex_digits = set ''0123456789abcdefABCDEF''"

section \<open>Properties\<close>

subsection \<open>Case conversion and the lookup tables\<close>

lemma of_char_to_lower:
  "(of_char (to_lower c) :: nat) = (if is_upper c then of_char c + 32 else of_char c)"
  by (simp add: to_lower_def is_upper_def)

lemma of_char_to_upper:
  "(of_char (to_upper c) :: nat) = (if is_lower c then of_char c - 32 else of_char c)"
proof -
  have "(of_char c :: nat) < 256" by simp
  then have "(of_char c - 32 :: nat) < 256" by arith
  then have "(of_char c - 32 :: nat) mod 256 = of_char c - 32"
    by (rule mod_less)
  then show ?thesis by (simp add: to_upper_def)
qed

lemma char_eq_iff_nat: "c = d \<longleftrightarrow> (of_char c :: nat) = of_char d"
  by simp

lemma to_lower_idem: "to_lower (to_lower c) = to_lower c"
  by (simp add: char_eq_iff_nat of_char_to_lower is_upper_def)

lemma to_lower_to_upper: "to_lower (to_upper c) = to_lower c"
  by (auto simp add: char_eq_iff_nat of_char_to_lower of_char_to_upper is_upper_def is_lower_def)

lemma same_lower_cased:
  assumes "to_lower c = to_lower d" "is_cased d"
  shows "is_cased c \<and> to_upper c = to_upper d"
proof -
  define m :: nat where "m = of_char c"
  define n :: nat where "n = of_char d"
  from assms(1) have "(of_char (to_lower c) :: nat) = of_char (to_lower d)" by simp
  then have eq: "(if 65 \<le> m \<and> m \<le> 90 then m + 32 else m) = (if 65 \<le> n \<and> n \<le> 90 then n + 32 else n)"
    by (simp only: of_char_to_lower is_upper_def m_def n_def)
  from assms(2) have cased: "(97 \<le> n \<and> n \<le> 122) \<or> (65 \<le> n \<and> n \<le> 90)"
    by (simp only: is_cased_def is_lower_def is_upper_def n_def)
  from eq cased have c1: "(97 \<le> m \<and> m \<le> 122) \<or> (65 \<le> m \<and> m \<le> 90)"
    by (simp split: if_splits)
  from eq cased have c2: "(if 97 \<le> m \<and> m \<le> 122 then m - 32 else m) = (if 97 \<le> n \<and> n \<le> 122 then n - 32 else n)"
    by (simp split: if_splits)
  from c2 have "(of_char (to_upper c) :: nat) = of_char (to_upper d)"
    by (simp only: of_char_to_upper is_lower_def m_def n_def)
  then have "to_upper c = to_upper d" by simp
  moreover from c1 have "is_cased c"
    by (simp only: is_cased_def is_lower_def is_upper_def m_def)
  ultimately show ?thesis by simp
qed

lemma lower_title_from: "lower (title_from p s) = lower s"
  by (induction s arbitrary: p) (simp_all add: lower_def to_lower_idem to_lower_to_upper)

lemma title_from_same_lower:
  "lower s = lower w \<Longrightarrow> \<forall>c \<in> set w. is_cased c \<Longrightarrow> title_from p s = title_from p w"
proof (induction s arbitrary: w p)
  case Nil
  then show ?case by (simp add: lower_def)
next
  case (Cons c cs)
  then obtain d ds where w: "w = d # ds" by (cases w) (auto simp: lower_def)
  with Cons.prems have eq: "to_lower c = to_lower d" "lower cs = lower ds"
    and cased: "is_cased d" "\<forall>c \<in> set ds. is_cased c"
    by (simp_all add: lower_def)
  from same_lower_cased[OF eq(1) cased(1)] have "is_cased c" "to_upper c = to_upper d"
    by simp_all
  with Cons.IH[OF eq(2) cased(2)] eq(1) cased(1) show ?case
    by (simp add: w)
qed

lemma names_cased: "\<forall>b \<in> set BUTTONS. \<forall>c \<in> set (name b). is_cased c"
  unfolding BUTTONS_def by code_simp

lemma hex_upper:
  "to_upper c \<in> set ''0123456789ABCDEF'' \<longleftrightarrow> c \<in> set ''0123456789abcdefABCDEF''"
  apply (simp add: char_eq_iff_nat of_char_to_upper is_lower_def)
  by arith

lemma dict_of_foldl:
  "foldl (\<lambda>m kv. m(fst kv \<mapsto> snd kv)) m0 kvs = m0 ++ map_of (rev kvs)"
  by (induction kvs arbitrary: m0) (auto simp: map_add_def fun_eq_iff split: option.splits)

lemma dict_of_map_of: "dict_of kvs = map_of (rev kvs)"
  by (simp add: dict_of_def dict_of_foldl)

lemma dict_of_distinct:
  "distinct (map fst kvs) \<Longrightarrow> dict_of kvs = map_of kvs"
  by (simp add: dict_of_map_of map_of_inject_set distinct_rev rev_map[symmetric])

lemma names_distinct: "distinct (map name BUTTONS)"
  by (simp add: BUTTONS_def)

lemma press_distinct: "distinct (map press BUTTONS)"
  by (simp add: BUTTONS_def)

lemma length_BUTTONS: "length BUTTONS = 26"
  by (simp add: BUTTONS_def)

lemma button_from_name_tab_eq: "button_from_name_tab = map_of (map (\<lambda>x. (name x, x)) BUTTONS)"
  unfolding button_from_name_tab_def
  by (rule dict_of_distinct) (simp add: comp_def names_distinct)

lemma button_from_press_tab_eq: "button_from_press_tab = map_of (map (\<lambda>x. (press x, x)) BUTTONS)"
  unfolding button_from_press_tab_def
  by (rule dict_of_distinct) (simp add: comp_def press_distinct)

lemma title_names: "\<forall>b \<in> set BUTTONS. title (name b) = name b"
  unfolding BUTTONS_def by code_simp

lemma press_tab_Some_iff: "button_from_press_tab p = Some b \<longleftrightarrow> b \<in> set BUTTONS \<and> press b = p"
  unfolding button_from_press_tab_eq
  using press_distinct by (auto simp: map_of_eq_Some_iff comp_def image_iff)

lemma name_tab_Some_iff: "button_from_name_tab n = Some b \<longleftrightarrow> b \<in> set BUTTONS \<and> name b = n"
  unfolding button_from_name_tab_eq
  using names_distinct by (auto simp: map_of_eq_Some_iff comp_def image_iff)

lemma press_tab_None_iff: "button_from_press_tab p = None \<longleftrightarrow> p \<notin> press ` set BUTTONS"
  unfolding button_from_press_tab_eq by (simp add: map_of_eq_None_iff image_image)

lemma name_tab_None_iff: "button_from_name_tab n = None \<longleftrightarrow> n \<notin> name ` set BUTTONS"
  unfolding button_from_name_tab_eq by (simp add: map_of_eq_None_iff image_image)

lemma title_eq_name_iff:
  assumes "b \<in> set BUTTONS"
  shows "title nm = name b \<longleftrightarrow> lower nm = lower (name b)"
proof
  assume "title nm = name b"
  then have "lower (title nm) = lower (name b)" by simp
  then show "lower nm = lower (name b)" by (simp add: title_def lower_title_from)
next
  assume "lower nm = lower (name b)"
  moreover from assms names_cased have "\<forall>c \<in> set (name b). is_cased c" by blast
  ultimately have "title_from False nm = title_from False (name b)"
    by (rule title_from_same_lower)
  with assms title_names show "title nm = name b" by (simp add: title_def)
qed

lemma mute_in_BUTTONS: "\<lparr>name = ''Mute'', press = 16\<rparr> \<in> set BUTTONS"
  by (simp add: BUTTONS_def)

text \<open>
  C6. Every button of \<open>BUTTONS\<close> is found again by its press code and by its name, and
  the two tables hold nothing else: an entry found under a code or a name is a button of
  the list with that code or name. The list has 26 buttons.
\<close>

theorem registry_round_trip:
  "(\<forall>c \<in> set BUTTONS. button_from_press (press c) = Some c \<and> button_from_name (name c) = Inr c) \<and>
   (\<forall>p c. button_from_press p = Some c \<longrightarrow> c \<in> set BUTTONS \<and> press c = p) \<and>
   (\<forall>n c. button_from_name_tab n = Some c \<longrightarrow> c \<in> set BUTTONS \<and> name c = n) \<and>
   length BUTTONS = 26"
proof -
  have "button_from_press (press c) = Some c \<and> button_from_name (name c) = Inr c"
    if "c \<in> set BUTTONS" for c
  proof -
    from that have "button_from_name_tab (name c) = Some c" by (simp add: name_tab_Some_iff)
    moreover from that title_names have "title (name c) = name c" by blast
    ultimately have "button_from_name (name c) = Inr c" by (simp add: button_from_name_def)
    moreover from that have "button_from_press (press c) = Some c"
      by (simp add: button_from_press_def press_tab_Some_iff)
    ultimately show ?thesis by simp
  qed
  then show ?thesis
    by (simp add: button_from_press_def press_tab_Some_iff name_tab_Some_iff length_BUTTONS)
qed

theorem registry_round_trip_witness:
  "\<lparr>name = ''Mute'', press = 16\<rparr> \<in> set BUTTONS \<and>
   button_from_press 16 = Some \<lparr>name = ''Mute'', press = 16\<rparr> \<and>
   button_from_name ''Mute'' = Inr \<lparr>name = ''Mute'', press = 16\<rparr>"
proof -
  from registry_round_trip mute_in_BUTTONS
  have "button_from_press (press \<lparr>name = ''Mute'', press = 16\<rparr>) = Some \<lparr>name = ''Mute'', press = 16\<rparr> \<and>
        button_from_name (name \<lparr>name = ''Mute'', press = 16\<rparr>) = Inr \<lparr>name = ''Mute'', press = 16\<rparr>"
    by blast
  with mute_in_BUTTONS show ?thesis by simp
qed

text \<open>
  C7. \<open>button_from_press\<close> gives \<open>None\<close> exactly for the codes of no button, and has no
  exception among its results. \<open>button_from_name\<close> raises \<open>KeyError\<close> exactly for the
  names that equal no button name when case is ignored, and raises nothing else.
\<close>

theorem lookup_failures:
  "(button_from_press p = None \<longleftrightarrow> p \<notin> press ` set BUTTONS) \<and>
   (button_from_name nm = Inl KeyError \<longleftrightarrow> (\<forall>b \<in> set BUTTONS. lower nm \<noteq> lower (name b))) \<and>
   (\<forall>e. button_from_name nm = Inl e \<longrightarrow> e = KeyError)"
proof -
  have "button_from_name nm = Inl KeyError \<longleftrightarrow> title nm \<notin> name ` set BUTTONS"
    by (simp add: button_from_name_def name_tab_None_iff[symmetric] split: option.splits)
  also have "\<dots> \<longleftrightarrow> (\<forall>b \<in> set BUTTONS. lower nm \<noteq> lower (name b))"
    using title_eq_name_iff[of _ nm] by (auto simp: image_iff)
  finally have "button_from_name nm = Inl KeyError \<longleftrightarrow> (\<forall>b \<in> set BUTTONS. lower nm \<noteq> lower (name b))" .
  moreover have "\<forall>e. button_from_name nm = Inl e \<longrightarrow> e = KeyError"
    by (simp add: button_from_name_def split: option.splits)
  ultimately show ?thesis
    by (simp add: button_from_press_def press_tab_None_iff)
qed

lemma fader_not_a_name: "\<forall>b \<in> set BUTTONS. lower ''Fader'' \<noteq> lower (name b)"
  unfolding BUTTONS_def by code_simp

theorem lookup_failures_witness:
  "(104::int) \<notin> press ` set BUTTONS \<and> button_from_press 104 = None \<and>
   list_all (\<lambda>b. lower ''Fader'' \<noteq> lower (name b)) BUTTONS \<and>
   button_from_name ''Fader'' = Inl KeyError"
proof -
  have "(104::int) \<notin> press ` set BUTTONS" by (simp add: BUTTONS_def)
  with lookup_failures[of 104 "''Fader''"] fader_not_a_name show ?thesis
    by (simp add: list_all_iff)
qed

subsection \<open>Sending, the fader and the lights\<close>

lemma outport_send_open:
  "outport s = Some p \<Longrightarrow>
   outport_send m s = Done (s\<lparr>outport := Some (p\<lparr>out_calls := out_calls p @ [Send m]\<rparr>)\<rparr>)"
  by (simp add: outport_send_def)

lemma outport_send_closed:
  "outport s = None \<Longrightarrow> outport_send m s = Raised AttributeError s"
  by (simp add: outport_send_def)

lemma for_each_send:
  "outport s = Some p \<Longrightarrow>
   for_each (\<lambda>x. outport_send (f x)) xs s =
     Done (s\<lparr>outport := Some (p\<lparr>out_calls := out_calls p @ map (\<lambda>x. Send (f x)) xs\<rparr>)\<rparr>)"
proof (induction xs arbitrary: s p)
  case Nil
  then show ?case by simp
next
  case (Cons x xs)
  let ?p1 = "p\<lparr>out_calls := out_calls p @ [Send (f x)]\<rparr>"
  let ?s1 = "s\<lparr>outport := Some ?p1\<rparr>"
  have "outport ?s1 = Some ?p1" by simp
  from Cons.IH[OF this] Cons.prems show ?case
    by (simp add: outport_send_open)
qed

lemma all_off_open:
  "outport s = Some p \<Longrightarrow>
   all_off s = Done (s\<lparr>outport := Some (p\<lparr>out_calls := out_calls p @
                     map (\<lambda>b. Send (NoteOn (press b) 0)) BUTTONS\<rparr>)\<rparr>)"
  unfolding all_off_def light_off_def [abs_def] by (rule for_each_send)

lemma opened_outport:
  "outport (init\<lparr>outport := Some \<lparr>out_calls = [], out_closed = False\<rparr>\<rparr>) =
     Some \<lparr>out_calls = [], out_closed = False\<rparr>"
  by simp

text \<open>
  C3. Writing \<open>v\<close> to the fader property leaves \<open>v\<close> clamped into \<open>[-8192, 8191]\<close> in the
  cache, whatever the state, and a read of the property then gives that value; with an
  output port the write returns, and its only other effect is one pitchwheel message
  with the clamped value appended to the calls on the port. Writing 9000 leaves 8191,
  writing -9000 leaves -8192.
\<close>

theorem fader_set_clamps:
  "p_fader (state_of (fader_set v s)) = max (- 8192) (min 8191 v) \<and>
   fader (state_of (fader_set v s)) = max (- 8192) (min 8191 v) \<and>
   (\<forall>p. outport s = Some p \<longrightarrow>
      fader_set v s =
        Done (s\<lparr>p_fader := max (- 8192) (min 8191 v),
                outport := Some (p\<lparr>out_calls := out_calls p @
                                   [Send (Pitchwheel (max (- 8192) (min 8191 v)))]\<rparr>)\<rparr>)) \<and>
   fader (state_of (fader_set 9000 s)) = 8191 \<and>
   fader (state_of (fader_set (- 9000) s)) = - 8192"
  by (cases "outport s")
     (auto simp add: fader_set_def fader_def outport_send_def Let_def max_def min_def)

theorem fader_set_clamps_witness:
  "outport (init\<lparr>outport := Some \<lparr>out_calls = [], out_closed = False\<rparr>\<rparr>) =
     Some \<lparr>out_calls = [], out_closed = False\<rparr> \<and>
   fader_set 9000 (init\<lparr>outport := Some \<lparr>out_calls = [], out_closed = False\<rparr>\<rparr>) =
     Done (init\<lparr>p_fader := 8191,
                outport := Some \<lparr>out_calls = [Send (Pitchwheel 8191)], out_closed = False\<rparr>\<rparr>)"
  using fader_set_clamps[of 9000 "init\<lparr>outport := Some \<lparr>out_calls = [], out_closed = False\<rparr>\<rparr>"]
  by simp

subsection \<open>Glyphs\<close>

lemma CHARACTERS_eq: "CHARACTERS = map_of CHARACTERS_items"
  unfolding CHARACTERS_def by (rule dict_of_distinct) (simp add: CHARACTERS_items_def)

lemma glyph_keys: "fst ` set CHARACTERS_items = (\<lambda>c. [c]) ` set ''0123456789ABCDEF''"
  by (simp add: CHARACTERS_items_def)

lemma glyph_bound:
  "\<forall>kv \<in> set CHARACTERS_items. \<forall>i \<in> set (snd kv). 0 \<le> i \<and> i < 26"
  by (simp add: CHARACTERS_items_def)

lemma CHARACTERS_bound:
  assumes "CHARACTERS k = Some indices" "i \<in> set indices"
  shows "0 \<le> i \<and> i < 26"
proof -
  from assms(1) have "(k, indices) \<in> set CHARACTERS_items"
    by (simp add: CHARACTERS_eq map_of_SomeD)
  with glyph_bound assms(2) show ?thesis by fastforce
qed

lemma CHARACTERS_upper_iff: "CHARACTERS (upper [c]) \<noteq> None \<longleftrightarrow> c \<in> hex_digits"
proof -
  have "CHARACTERS (upper [c]) \<noteq> None \<longleftrightarrow> [to_upper c] \<in> fst ` set CHARACTERS_items"
    by (simp add: CHARACTERS_eq map_of_eq_None_iff upper_def)
  also have "\<dots> \<longleftrightarrow> to_upper c \<in> set ''0123456789ABCDEF''"
    unfolding glyph_keys by blast
  also have "\<dots> \<longleftrightarrow> c \<in> hex_digits"
    unfolding hex_digits_def by (rule hex_upper)
  finally show ?thesis .
qed

lemma py_index_in_range:
  "0 \<le> i \<Longrightarrow> i < int (length xs) \<Longrightarrow> py_index xs i = Inr (xs ! nat i)"
  by (simp add: py_index_def)

lemma for_each_cong:
  "(\<And>x s. x \<in> set xs \<Longrightarrow> f x s = g x s) \<Longrightarrow> for_each f xs s = for_each g xs s"
proof (induction xs arbitrary: s)
  case Nil
  then show ?case by simp
next
  case (Cons x xs)
  then have "f x s = g x s" and "\<And>s'. for_each f xs s' = for_each g xs s'"
    by simp_all
  then show ?case by (cases "g x s") simp_all
qed

lemma char_on_glyph:
  assumes "CHARACTERS (upper c) = Some indices"
  shows "char_on c s = for_each (\<lambda>i. outport_send (NoteOn (press (BUTTONS ! nat i)) 127)) indices s"
proof -
  have "(case py_index BUTTONS i of Inl e \<Rightarrow> Raised e s' | Inr button \<Rightarrow> light_on button s') =
        outport_send (NoteOn (press (BUTTONS ! nat i)) 127) s'"
    if "i \<in> set indices" for i and s' :: "'a state_scheme"
  proof -
    from CHARACTERS_bound[OF assms that] have "py_index BUTTONS i = Inr (BUTTONS ! nat i)"
      by (simp add: py_index_in_range length_BUTTONS)
    then show ?thesis by (simp add: light_on_def)
  qed
  then have "for_each (\<lambda>i s'. case py_index BUTTONS i of Inl e \<Rightarrow> Raised e s'
                                | Inr button \<Rightarrow> light_on button s') indices s =
             for_each (\<lambda>i. outport_send (NoteOn (press (BUTTONS ! nat i)) 127)) indices s"
    by (rule for_each_cong)
  with assms show ?thesis by (simp add: char_on_def)
qed

lemma CHARACTERS_A: "CHARACTERS (upper ''A'') = Some [4, 5, 7, 10, 11, 12, 13, 14, 15, 18, 19, 23]"
proof -
  have "upper ''A'' = ''A''" by code_simp
  then show ?thesis by (simp add: CHARACTERS_eq CHARACTERS_items_def)
qed

lemma glyph_A_codes:
  "map (\<lambda>i. Send (NoteOn (press (BUTTONS ! nat i)) 127)) [4, 5, 7, 10, 11, 12, 13, 14, 15, 18, 19, 23] =
   map (\<lambda>n. Send (NoteOn n 127)) [3, 77, 74, 47, 5, 42, 54, 56, 58, 61, 86, 94]"
  by (simp add: BUTTONS_def)

lemma upper_a: "upper ''a'' = ''A''"
  by code_simp

lemma CHARACTERS_a: "CHARACTERS (upper ''a'') = Some [4, 5, 7, 10, 11, 12, 13, 14, 15, 18, 19, 23]"
  by (simp add: upper_a CHARACTERS_eq CHARACTERS_items_def)

lemma hex_a: "CHR ''a'' \<in> hex_digits"
  by (simp add: hex_digits_def)

lemma not_hex_g: "CHR ''g'' \<notin> hex_digits"
  by (simp add: hex_digits_def)

text \<open>
  C8. For a one-character string \<open>[c]\<close>: if \<open>c\<close> is a hex digit, the uppercased string
  has a glyph, and on a driver with an output port \<open>char_on\<close> returns and its only effect
  is one light-on message per index of that glyph, for the button at that index, in the
  glyph's order. If \<open>c\<close> is no hex digit there is no glyph and \<open>char_on\<close> returns with the
  state unchanged. For \<open>''A''\<close> the messages go to the codes of the buttons at the indices
  4, 5, 7, 10, 11, 12, 13, 14, 15, 18, 19, 23 and to no other.
\<close>

theorem char_on_hex:
  "(c \<in> hex_digits \<longrightarrow>
      (\<exists>indices. CHARACTERS (upper [c]) = Some indices \<and>
         (\<forall>p. outport s = Some p \<longrightarrow>
            char_on [c] s =
              Done (s\<lparr>outport := Some (p\<lparr>out_calls := out_calls p @
                       map (\<lambda>i. Send (NoteOn (press (BUTTONS ! nat i)) 127)) indices\<rparr>)\<rparr>)))) \<and>
   (c \<notin> hex_digits \<longrightarrow> CHARACTERS (upper [c]) = None \<and> char_on [c] s = Done s) \<and>
   (\<forall>p. outport s = Some p \<longrightarrow>
      char_on ''A'' s =
        Done (s\<lparr>outport := Some (p\<lparr>out_calls := out_calls p @
                 map (\<lambda>n. Send (NoteOn n 127)) [3, 77, 74, 47, 5, 42, 54, 56, 58, 61, 86, 94]\<rparr>)\<rparr>))"
proof (intro conjI impI allI)
  assume "c \<in> hex_digits"
  then obtain indices where g: "CHARACTERS (upper [c]) = Some indices"
    using CHARACTERS_upper_iff[of c] by auto
  have "char_on [c] s =
          Done (s\<lparr>outport := Some (p\<lparr>out_calls := out_calls p @
                   map (\<lambda>i. Send (NoteOn (press (BUTTONS ! nat i)) 127)) indices\<rparr>)\<rparr>)"
    if "outport s = Some p" for p
    unfolding char_on_glyph[OF g] using that by (rule for_each_send)
  with g show "\<exists>indices. CHARACTERS (upper [c]) = Some indices \<and>
         (\<forall>p. outport s = Some p \<longrightarrow>
            char_on [c] s =
              Done (s\<lparr>outport := Some (p\<lparr>out_calls := out_calls p @
                       map (\<lambda>i. Send (NoteOn (press (BUTTONS ! nat i)) 127)) indices\<rparr>)\<rparr>))"
    by blast
next
  assume "c \<notin> hex_digits"
  then show "CHARACTERS (upper [c]) = None" using CHARACTERS_upper_iff[of c] by simp
next
  assume "c \<notin> hex_digits"
  then have "CHARACTERS (upper [c]) = None" using CHARACTERS_upper_iff[of c] by simp
  then show "char_on [c] s = Done s" by (simp add: char_on_def)
next
  fix p assume "outport s = Some p"
  then show "char_on ''A'' s =
        Done (s\<lparr>outport := Some (p\<lparr>out_calls := out_calls p @
                 map (\<lambda>n. Send (NoteOn n 127)) [3, 77, 74, 47, 5, 42, 54, 56, 58, 61, 86, 94]\<rparr>)\<rparr>)"
    unfolding char_on_glyph[OF CHARACTERS_A] glyph_A_codes[symmetric] by (rule for_each_send)
qed

theorem char_on_hex_witness:
  "CHR ''a'' \<in> hex_digits \<and> CHR ''g'' \<notin> hex_digits \<and>
   char_on ''g'' init = Done init \<and>
   char_on ''a'' (init\<lparr>outport := Some \<lparr>out_calls = [], out_closed = False\<rparr>\<rparr>) =
     Done (init\<lparr>outport := Some \<lparr>out_calls =
             map (\<lambda>n. Send (NoteOn n 127)) [3, 77, 74, 47, 5, 42, 54, 56, 58, 61, 86, 94],
             out_closed = False\<rparr>\<rparr>)"
proof -
  let ?s = "init\<lparr>outport := Some \<lparr>out_calls = [], out_closed = False\<rparr>\<rparr>"
  from char_on_hex[of "CHR ''g''" init] not_hex_g
  have g: "char_on ''g'' init = Done init" by simp
  from char_on_hex[of "CHR ''a''" ?s] hex_a obtain indices where
    i: "CHARACTERS (upper ''a'') = Some indices" and
    r: "\<forall>p. outport ?s = Some p \<longrightarrow> char_on ''a'' ?s =
          Done (?s\<lparr>outport := Some (p\<lparr>out_calls := out_calls p @
                   map (\<lambda>i. Send (NoteOn (press (BUTTONS ! nat i)) 127)) indices\<rparr>)\<rparr>)"
    by blast
  from i CHARACTERS_a have "indices = [4, 5, 7, 10, 11, 12, 13, 14, 15, 18, 19, 23]"
    by simp
  with r opened_outport have "char_on ''a'' ?s =
     Done (?s\<lparr>outport := Some \<lparr>out_calls =
             map (\<lambda>i. Send (NoteOn (press (BUTTONS ! nat i)) 127))
                 [4, 5, 7, 10, 11, 12, 13, 14, 15, 18, 19, 23], out_closed = False\<rparr>\<rparr>)"
    by simp
  then have "char_on ''a'' ?s =
     Done (?s\<lparr>outport := Some \<lparr>out_calls =
             map (\<lambda>n. Send (NoteOn n 127)) [3, 77, 74, 47, 5, 42, 54, 56, 58, 61, 86, 94],
             out_closed = False\<rparr>\<rparr>)"
    by (simp only: glyph_A_codes)
  with g hex_a not_hex_g show ?thesis by simp
qed

lemma for_each_raised:
  "for_each body xs s = Raised e s' \<Longrightarrow> \<exists>x \<in> set xs. \<exists>s1. body x s1 = Raised e s'"
proof (induction xs arbitrary: s)
  case Nil
  then show ?case by simp
next
  case (Cons x xs)
  then show ?case by (cases "body x s") auto
qed

lemma outport_send_raised: "outport_send m s = Raised e s' \<Longrightarrow> e = AttributeError"
  by (simp add: outport_send_def split: option.splits)

text \<open>
  C10. Every index of every glyph is at least 0 and below 26, the length of \<open>BUTTONS\<close>,
  so \<^verbatim>\<open>BUTTONS[i]\<close> gives the button at that position and does not raise; \<open>char_on\<close>
  raises \<open>IndexError\<close> for no argument and in no state.
\<close>

theorem glyph_indices_in_bounds:
  "(\<forall>k indices. CHARACTERS k = Some indices \<longrightarrow>
      (\<forall>i \<in> set indices. 0 \<le> i \<and> i < int (length BUTTONS) \<and>
                          py_index BUTTONS i = Inr (BUTTONS ! nat i))) \<and>
   length BUTTONS = 26 \<and>
   (\<forall>c s s'. char_on c s \<noteq> Raised IndexError s')"
proof (intro conjI allI impI ballI)
  fix k indices i
  assume "CHARACTERS k = Some indices" "i \<in> set indices"
  then have b: "0 \<le> i \<and> i < 26" by (rule CHARACTERS_bound)
  then show "0 \<le> i" "i < int (length BUTTONS)" by (simp_all add: length_BUTTONS)
  from b show "py_index BUTTONS i = Inr (BUTTONS ! nat i)"
    by (simp add: py_index_in_range length_BUTTONS)
next
  show "length BUTTONS = 26" by (rule length_BUTTONS)
next
  fix c and s s' :: "'a state_scheme"
  show "char_on c s \<noteq> Raised IndexError s'"
  proof (cases "CHARACTERS (upper c)")
    case None
    then show ?thesis by (simp add: char_on_def)
  next
    case (Some indices)
    show ?thesis
    proof
      assume "char_on c s = Raised IndexError s'"
      then have "for_each (\<lambda>i. outport_send (NoteOn (press (BUTTONS ! nat i)) 127)) indices s =
                 Raised IndexError s'"
        by (simp add: char_on_glyph[OF Some])
      then obtain i s1 where "outport_send (NoteOn (press (BUTTONS ! nat i)) 127) s1 =
                 Raised IndexError s'"
        by (blast dest: for_each_raised)
      then show False by (auto dest: outport_send_raised)
    qed
  qed
qed

theorem glyph_indices_in_bounds_witness:
  "CHARACTERS ''F'' = Some [4, 5, 6, 7, 13, 14, 15, 23] \<and>
   (23::int) \<in> set [4, 5, 6, 7, 13, 14, 15, 23] \<and>
   py_index BUTTONS 23 = Inr (BUTTONS ! 23)"
proof -
  have f: "CHARACTERS ''F'' = Some [4, 5, 6, 7, 13, 14, 15, 23]"
    by (simp add: CHARACTERS_eq CHARACTERS_items_def)
  have m: "(23::int) \<in> set [4, 5, 6, 7, 13, 14, 15, 23]" by simp
  from glyph_indices_in_bounds f m have "py_index BUTTONS 23 = Inr (BUTTONS ! nat 23)"
    by blast
  with f m show ?thesis by simp
qed

subsection \<open>The inbound callback\<close>

text \<open>
  C4. For a note-on message with note \<open>n\<close> and velocity \<open>w\<close>, whatever the hooks and the
  state: if \<open>n = 104\<close> the callback is exactly one call of \<open>on_fader_touch\<close> with
  \<open>w \<noteq> 0\<close>; if \<open>n \<noteq> 104\<close> and \<open>n\<close> is the code of a button of \<open>BUTTONS\<close>, it is exactly
  one call of \<open>on_button\<close> with that button and \<open>w \<noteq> 0\<close>; if \<open>n \<noteq> 104\<close> and \<open>n\<close> is the
  code of no button, it calls no hook, prints one line naming \<open>n\<close> and returns.
\<close>

theorem note_on_dispatch:
  "(note = 104 \<longrightarrow>
      message_callback h (NoteOn note velocity) s = on_fader_touch h (velocity \<noteq> 0) s) \<and>
   (note \<noteq> 104 \<longrightarrow>
      (\<forall>b \<in> set BUTTONS. press b = note \<longrightarrow>
         message_callback h (NoteOn note velocity) s = on_button h b (velocity \<noteq> 0) s)) \<and>
   (note \<noteq> 104 \<longrightarrow> note \<notin> press ` set BUTTONS \<longrightarrow>
      message_callback h (NoteOn note velocity) s =
        Done (s\<lparr>stdout := stdout s @ [Button_not_found note]\<rparr>))"
proof (intro conjI impI ballI)
  assume "note = 104"
  then show "message_callback h (NoteOn note velocity) s = on_fader_touch h (velocity \<noteq> 0) s"
    by (simp add: message_callback_def)
next
  fix b
  assume "note \<noteq> 104" "b \<in> set BUTTONS" "press b = note"
  then have "button_from_press note = Some b"
    by (simp add: button_from_press_def press_tab_Some_iff)
  with \<open>note \<noteq> 104\<close>
  show "message_callback h (NoteOn note velocity) s = on_button h b (velocity \<noteq> 0) s"
    by (simp add: message_callback_def)
next
  assume "note \<noteq> 104" "note \<notin> press ` set BUTTONS"
  then have "button_from_press note = None"
    by (simp add: button_from_press_def press_tab_None_iff)
  with \<open>note \<noteq> 104\<close>
  show "message_callback h (NoteOn note velocity) s =
        Done (s\<lparr>stdout := stdout s @ [Button_not_found note]\<rparr>)"
    by (simp add: message_callback_def print_def)
qed

theorem note_on_dispatch_witness:
  "message_callback TestFaderPort (NoteOn 104 127) TestFaderPort_init =
     Done (TestFaderPort_init\<lparr>stdout := [Fader_touch_line True]\<rparr>) \<and>
   (16::int) \<noteq> 104 \<and> \<lparr>name = ''Mute'', press = 16\<rparr> \<in> set BUTTONS \<and>
   message_callback TestFaderPort (NoteOn 16 0)
       (TestFaderPort_init\<lparr>outport := Some \<lparr>out_calls = [], out_closed = False\<rparr>\<rparr>) =
     Done (TestFaderPort_init\<lparr>outport := Some \<lparr>out_calls = [Send (NoteOn 16 0)], out_closed = False\<rparr>,
             stdout := [Button_line ''Mute'' False], should_exit := True\<rparr>) \<and>
   (1::int) \<notin> press ` set BUTTONS \<and>
   message_callback TestFaderPort (NoteOn 1 127) TestFaderPort_init =
     Done (TestFaderPort_init\<lparr>stdout := [Button_not_found 1]\<rparr>)"
proof -
  let ?s = "TestFaderPort_init\<lparr>outport := Some \<lparr>out_calls = [], out_closed = False\<rparr>\<rparr>"
  have a: "message_callback TestFaderPort (NoteOn 104 127) TestFaderPort_init =
     Done (TestFaderPort_init\<lparr>stdout := [Fader_touch_line True]\<rparr>)"
    using note_on_dispatch[of 104 TestFaderPort 127 TestFaderPort_init]
    by (simp add: TestFaderPort_def test_on_fader_touch_def print_def TestFaderPort_init_def)
  have "message_callback TestFaderPort (NoteOn 16 0) ?s =
          on_button TestFaderPort \<lparr>name = ''Mute'', press = 16\<rparr> (0 \<noteq> (0::int)) ?s"
    using note_on_dispatch[of 16 TestFaderPort 0 ?s] mute_in_BUTTONS by fastforce
  then have b: "message_callback TestFaderPort (NoteOn 16 0) ?s =
     Done (TestFaderPort_init\<lparr>outport := Some \<lparr>out_calls = [Send (NoteOn 16 0)], out_closed = False\<rparr>,
             stdout := [Button_line ''Mute'' False], should_exit := True\<rparr>)"
    by (simp add: TestFaderPort_def test_on_button_def print_def TestFaderPort_init_def
        light_off_def outport_send_def Let_def)
  have n: "(1::int) \<notin> press ` set BUTTONS" by (simp add: BUTTONS_def)
  with note_on_dispatch[of 1 TestFaderPort 127 TestFaderPort_init]
  have c: "message_callback TestFaderPort (NoteOn 1 127) TestFaderPort_init =
     Done (TestFaderPort_init\<lparr>stdout := [Button_not_found 1]\<rparr>)"
    by (simp add: TestFaderPort_init_def)
  from a b c n mute_in_BUTTONS show ?thesis by simp
qed

subsection \<open>Closing\<close>

lemma inport_set_callback_open:
  "inport s = Some ip \<Longrightarrow>
   inport_set_callback cb s = Done (s\<lparr>inport := Some (ip\<lparr>callback := cb\<rparr>)\<rparr>)"
  by (simp add: inport_set_callback_def)

text \<open>
  C1, as the code has it. \<open>close\<close> calls the \<open>on_close\<close> hook first. If the hook returns
  and leaves both ports in place, \<open>close\<close> returns, and from the hook's state the
  callback is unregistered, the fader cache is \<open>-8192\<close> and that value was sent, a
  light-off message was sent for each of the 26 buttons, the output port was reset, and
  both ports are closed. If the hook raises, \<open>close\<close> raises the same exception from the
  state the hook left: no teardown step runs.
\<close>

theorem close_teardown:
  "(\<forall>s1 ip op. on_close h s = Done s1 \<longrightarrow> inport s1 = Some ip \<longrightarrow> outport s1 = Some op \<longrightarrow>
      close h s =
        Done (s1\<lparr>inport := Some (ip\<lparr>callback := False, in_closed := True\<rparr>),
                p_fader := - 8192,
                outport := Some (op\<lparr>out_calls := out_calls op @
                    [Send (Pitchwheel (- 8192))] @
                    map (\<lambda>b. Send (NoteOn (press b) 0)) BUTTONS @ [Reset],
                  out_closed := True\<rparr>)\<rparr>)) \<and>
   (\<forall>e s1. on_close h s = Raised e s1 \<longrightarrow> close h s = Raised e s1) \<and>
   length BUTTONS = 26"
proof (intro conjI allI impI)
  fix s1 ip op
  assume h: "on_close h s = Done s1" and i: "inport s1 = Some ip" and o: "outport s1 = Some op"
  let ?s2 = "s1\<lparr>inport := Some (ip\<lparr>callback := False\<rparr>)\<rparr>"
  let ?op3 = "op\<lparr>out_calls := out_calls op @ [Send (Pitchwheel (- 8192))]\<rparr>"
  let ?s3 = "?s2\<lparr>p_fader := - 8192, outport := Some ?op3\<rparr>"
  let ?op4 = "?op3\<lparr>out_calls := out_calls ?op3 @ map (\<lambda>b. Send (NoteOn (press b) 0)) BUTTONS\<rparr>"
  let ?s4 = "?s3\<lparr>outport := Some ?op4\<rparr>"
  have 2: "inport_set_callback False s1 = Done ?s2"
    using i by (rule inport_set_callback_open)
  have 3: "fader_set (- 8192) ?s2 = Done ?s3"
    using o by (simp add: fader_set_def outport_send_def)
  have "outport ?s3 = Some ?op3" by simp
  then have 4: "all_off ?s3 = Done ?s4" by (rule all_off_open)
  have 5: "outport_reset ?s4 = Done (?s4\<lparr>outport := Some (?op4\<lparr>out_calls := out_calls ?op4 @ [Reset]\<rparr>)\<rparr>)"
    by (simp add: outport_reset_def)
  show "close h s =
        Done (s1\<lparr>inport := Some (ip\<lparr>callback := False, in_closed := True\<rparr>),
                p_fader := - 8192,
                outport := Some (op\<lparr>out_calls := out_calls op @
                    [Send (Pitchwheel (- 8192))] @
                    map (\<lambda>b. Send (NoteOn (press b) 0)) BUTTONS @ [Reset],
                  out_closed := True\<rparr>)\<rparr>)"
    unfolding close_def h and_then.simps 2 3 4 5
    by (simp add: inport_close_def outport_close_def)
next
  fix e s1 assume "on_close h s = Raised e s1"
  then show "close h s = Raised e s1" by (simp add: close_def)
next
  show "length BUTTONS = 26" by (rule length_BUTTONS)
qed

theorem close_teardown_witness:
  "on_close TestFaderPort
     (TestFaderPort_init\<lparr>inport := Some \<lparr>callback = True, in_closed = False\<rparr>,
                         outport := Some \<lparr>out_calls = [], out_closed = False\<rparr>\<rparr>) =
   Done (TestFaderPort_init\<lparr>inport := Some \<lparr>callback = True, in_closed = False\<rparr>,
                            outport := Some \<lparr>out_calls = [], out_closed = False\<rparr>,
                            stdout := [FaderPort_closing]\<rparr>) \<and>
   close TestFaderPort
     (TestFaderPort_init\<lparr>inport := Some \<lparr>callback = True, in_closed = False\<rparr>,
                         outport := Some \<lparr>out_calls = [], out_closed = False\<rparr>\<rparr>) =
   Done (TestFaderPort_init\<lparr>inport := Some \<lparr>callback = False, in_closed = True\<rparr>,
           outport := Some \<lparr>out_calls = Send (Pitchwheel (- 8192)) #
                              map (\<lambda>b. Send (NoteOn (press b) 0)) BUTTONS @ [Reset],
                            out_closed = True\<rparr>,
           stdout := [FaderPort_closing]\<rparr>)"
proof -
  let ?s = "TestFaderPort_init\<lparr>inport := Some \<lparr>callback = True, in_closed = False\<rparr>,
                         outport := Some \<lparr>out_calls = [], out_closed = False\<rparr>\<rparr>"
  let ?s1 = "TestFaderPort_init\<lparr>inport := Some \<lparr>callback = True, in_closed = False\<rparr>,
                            outport := Some \<lparr>out_calls = [], out_closed = False\<rparr>,
                            stdout := [FaderPort_closing]\<rparr>"
  have h: "on_close TestFaderPort ?s = Done ?s1"
    by (simp add: TestFaderPort_def test_on_close_def print_def TestFaderPort_init_def)
  have i: "inport ?s1 = Some \<lparr>callback = True, in_closed = False\<rparr>" by simp
  have o: "outport ?s1 = Some \<lparr>out_calls = [], out_closed = False\<rparr>" by simp
  from close_teardown[of TestFaderPort ?s] h i o
  have "close TestFaderPort ?s =
        Done (?s1\<lparr>inport := Some (\<lparr>callback = True, in_closed = False\<rparr>
                                      \<lparr>callback := False, in_closed := True\<rparr>),
                p_fader := - 8192,
                outport := Some (\<lparr>out_calls = [], out_closed = False\<rparr>
                  \<lparr>out_calls := out_calls \<lparr>out_calls = [], out_closed = False\<rparr> @
                    [Send (Pitchwheel (- 8192))] @
                    map (\<lambda>b. Send (NoteOn (press b) 0)) BUTTONS @ [Reset],
                  out_closed := True\<rparr>)\<rparr>)"
    by blast
  then have "close TestFaderPort ?s =
   Done (TestFaderPort_init\<lparr>inport := Some \<lparr>callback = False, in_closed = True\<rparr>,
           outport := Some \<lparr>out_calls = Send (Pitchwheel (- 8192)) #
                              map (\<lambda>b. Send (NoteOn (press b) 0)) BUTTONS @ [Reset],
                            out_closed = True\<rparr>,
           stdout := [FaderPort_closing]\<rparr>)"
    by (simp add: TestFaderPort_init_def)
  with h show ?thesis by simp
qed

text \<open>
  C1, as stated, fails: on an opened driver whose \<open>on_close\<close> hook raises, \<open>close\<close>
  raises and leaves the state as it was, with the callback still registered, nothing
  sent, and both ports open.
\<close>

theorem close_hook_raises_counterexample:
  "close Failing_on_close
     (init\<lparr>inport := Some \<lparr>callback = True, in_closed = False\<rparr>,
           outport := Some \<lparr>out_calls = [], out_closed = False\<rparr>\<rparr>) =
   Raised (HookError ''on_close'')
     (init\<lparr>inport := Some \<lparr>callback = True, in_closed = False\<rparr>,
           outport := Some \<lparr>out_calls = [], out_closed = False\<rparr>\<rparr>)"
  by (simp add: close_def Failing_on_close_def)

subsection \<open>The chase\<close>

lemma button_from_name_in:
  assumes "b \<in> set BUTTONS"
  shows "button_from_name (name b) = Inr b"
proof -
  from assms have "button_from_name_tab (name b) = Some b" by (simp add: name_tab_Some_iff)
  moreover from assms title_names have "title (name b) = name b" by blast
  ultimately show ?thesis by (simp add: button_from_name_def)
qed

lemma BUTTONS_nth_in: "i < 26 \<Longrightarrow> BUTTONS ! i \<in> set BUTTONS"
  by (simp add: length_BUTTONS)

lemma chase_seq_value:
  "chase_seq = Inr (map ((!) BUTTONS) [0, 1, 2, 3, 7, 14, 18, 17, 16, 15, 11, 4])"
proof -
  have n: "''Solo'' = name (BUTTONS ! 0)" "''Mute'' = name (BUTTONS ! 1)"
    "''Arm'' = name (BUTTONS ! 2)" "''Shift'' = name (BUTTONS ! 3)"
    "''Read'' = name (BUTTONS ! 7)" "''Scroll'' = name (BUTTONS ! 14)"
    "''Marker'' = name (BUTTONS ! 18)" "''Section'' = name (BUTTONS ! 17)"
    "''Click'' = name (BUTTONS ! 16)" "''Master'' = name (BUTTONS ! 15)"
    "''Link'' = name (BUTTONS ! 11)" "''Bypass'' = name (BUTTONS ! 4)"
    by (simp_all add: BUTTONS_def)
  show ?thesis
    unfolding chase_seq_def
    by (subst n)+ (simp add: button_from_name_in BUTTONS_nth_in)
qed

lemma chase_seq_props:
  assumes "chase_seq = Inr seq"
  shows "length seq = 12" "distinct (map press seq)" "set seq \<subseteq> set BUTTONS"
  using assms unfolding chase_seq_value by (auto simp: BUTTONS_def)


lemma cycle_next_nonempty:
  "items it \<noteq> [] \<Longrightarrow>
   cycle_next it = Some (items it ! pos it, it\<lparr>pos := (pos it + 1) mod length (items it)\<rparr>)"
  by (simp add: cycle_next_def)

lemma consume_pos:
  "items it \<noteq> [] \<Longrightarrow> pos it < length (items it) \<Longrightarrow>
   consume it n = it\<lparr>pos := (pos it + n) mod length (items it)\<rparr>"
proof (induction n arbitrary: it)
  case 0
  then show ?case by simp
next
  case (Suc n)
  let ?it = "it\<lparr>pos := (pos it + 1) mod length (items it)\<rparr>"
  from Suc.prems have "items ?it \<noteq> []" "pos ?it < length (items ?it)" by simp_all
  from Suc.IH[OF this] Suc.prems(1) show ?case
    by (simp add: cycle_next_nonempty mod_simps)
qed

lemma chase_its_nth:
  assumes "seq \<noteq> []" "i < nat n"
  shows "chase_its seq n ! i =
           \<lparr>items = seq, pos = (i * nat (int (length seq) div n)) mod length seq\<rparr>"
proof -
  have "enumerate 0 (replicate (nat n) (cycle seq)) ! i = (i, cycle seq)"
    using assms(2) by (simp add: nth_enumerate_eq)
  then have "chase_its seq n ! i =
          (if i \<noteq> 0 then consume (cycle seq) (i * nat (int (length seq) div n)) else cycle seq)"
    using assms(2) by (simp add: chase_its_def)
  also have "\<dots> = \<lparr>items = seq, pos = (i * nat (int (length seq) div n)) mod length seq\<rparr>"
    using assms(1) by (simp add: consume_pos cycle_def)
  finally show ?thesis .
qed

lemma length_chase_its: "length (chase_its seq n) = nat n"
  by (simp add: chase_its_def)

lemma chase_its_eq:
  assumes "seq \<noteq> []"
  shows "chase_its seq n =
           map (\<lambda>i. \<lparr>items = seq, pos = (i * nat (int (length seq) div n)) mod length seq\<rparr>) [0..<nat n]"
  by (rule nth_equalityI) (simp_all add: length_chase_its chase_its_nth[OF assms])

lemma chase_num_lights_cases:
  "chase_num_lights k = 1 \<or> chase_num_lights k = 2 \<or> chase_num_lights k = 3 \<or> chase_num_lights k = 4"
  by (simp add: chase_num_lights_def)

lemma chase_step_exact:
  assumes "m = 1 \<or> m = 2 \<or> m = 3 \<or> m = (4::int)" "i < nat m"
  shows "(i * nat (12 div m)) mod 12 = i * (12 div nat m)"
proof -
  from assms consider "m = 1" "i < 1" | "m = 2" "i < 2" | "m = 3" "i < 3" | "m = 4" "i < 4"
    by auto
  then show ?thesis
  proof cases
    case 1
    then show ?thesis by simp
  next
    case 2
    then have "i * 6 < 12" by arith
    with 2 show ?thesis by simp
  next
    case 3
    then have "i * 4 < 12" by arith
    with 3 show ?thesis by simp
  next
    case 4
    then have "i * 3 < 12" by arith
    with 4 show ?thesis by simp
  qed
qed

text \<open>
  C2, as the code has it. The sequence has 12 buttons. The number of iterators is
  \<open>num_lights\<close> when that is 1, 2, 3 or 4, and 2 for every other integer; with \<open>n\<close> that
  number, iterator \<open>i\<close> stands \<open>i * (12 div n)\<close> places into the sequence when the tick loop
  starts.
\<close>

theorem chase_its_count:
  assumes "chase_seq = Inr seq"
  shows "length seq = 12 \<and>
     chase_num_lights num_lights = (if num_lights \<in> {1, 2, 3, 4} then num_lights else 2) \<and>
     length (chase_its seq (chase_num_lights num_lights)) = nat (chase_num_lights num_lights) \<and>
     (\<forall>i < nat (chase_num_lights num_lights).
        chase_its seq (chase_num_lights num_lights) ! i =
          \<lparr>items = seq, pos = i * (12 div nat (chase_num_lights num_lights))\<rparr>)"
proof -
  from assms have l: "length seq = 12" by (rule chase_seq_props)
  then have ne: "seq \<noteq> []" by auto
  have "chase_its seq (chase_num_lights num_lights) ! i =
          \<lparr>items = seq, pos = i * (12 div nat (chase_num_lights num_lights))\<rparr>"
    if "i < nat (chase_num_lights num_lights)" for i
  proof -
    from chase_num_lights_cases[of num_lights] that
    have "(i * nat (12 div chase_num_lights num_lights)) mod 12 =
          i * (12 div nat (chase_num_lights num_lights))"
      by (rule chase_step_exact)
    with chase_its_nth[OF ne that] l show ?thesis by simp
  qed
  with l show ?thesis
    by (simp add: length_chase_its chase_num_lights_def)
qed

theorem chase_its_count_witness:
  "chase_seq = Inr (projr chase_seq) \<and>
   length (chase_its (projr chase_seq) (chase_num_lights 3)) = 3 \<and>
   map pos (chase_its (projr chase_seq) (chase_num_lights 3)) = [0, 4, 8]"
proof -
  have s: "chase_seq = Inr (projr chase_seq)" by (simp add: chase_seq_value)
  have n: "chase_num_lights 3 = 3" by (simp add: chase_num_lights_def)
  let ?its = "chase_its (projr chase_seq) (chase_num_lights 3)"
  from chase_its_count[OF s, of 3]
  have "length ?its = nat (chase_num_lights 3)"
    and "\<forall>i < nat (chase_num_lights 3). ?its ! i =
           \<lparr>items = projr chase_seq, pos = i * (12 div nat (chase_num_lights 3))\<rparr>"
    by blast+
  then have l: "length ?its = 3"
    and i: "\<And>i. i < 3 \<Longrightarrow> pos (?its ! i) = i * 4"
    unfolding n by simp_all
  have "map pos ?its = [0, 4, 8]"
  proof (rule nth_equalityI)
    show "length (map pos ?its) = length [0, 4, 8::nat]" using l by simp
  next
    fix k assume "k < length (map pos ?its)"
    with l have k: "k < 3" by simp
    then consider "k = 0" | "k = 1" | "k = 2" by arith
    then show "map pos ?its ! k = [0, 4, 8] ! k"
    proof cases
      case 1
      with i[of 0] l show ?thesis by simp
    next
      case 2
      with i[of 1] l show ?thesis by simp
    next
      case 3
      with i[of 2] l show ?thesis by simp
    qed
  qed
  with s l show ?thesis by simp
qed

text \<open>
  C2, as stated, fails: for \<open>num_lights = 0\<close> the clamp into 1..4 gives 1 and for
  \<open>num_lights = 7\<close> it gives 4, and the code creates 2 iterators in both cases.
\<close>

theorem chase_num_lights_counterexample:
  "length (chase_its (projr chase_seq) (chase_num_lights 0)) = 2 \<and>
   nat (max 1 (min 4 0)) = 1 \<and>
   length (chase_its (projr chase_seq) (chase_num_lights 7)) = 2 \<and>
   nat (max 1 (min 4 7)) = 4"
proof -
  have "chase_num_lights 0 = 2" "chase_num_lights 7 = 2"
    by (simp_all add: chase_num_lights_def)
  then show ?thesis by (simp add: length_chase_its)
qed

lemma chase_on_phase_open:
  assumes "outport s = Some p" "\<forall>it \<in> set its. items it \<noteq> []"
  shows "chase_on_phase its s =
     Done (map (\<lambda>it. it\<lparr>pos := (pos it + 1) mod length (items it)\<rparr>) its,
           s\<lparr>outport := Some (p\<lparr>out_calls := out_calls p @
                map (\<lambda>it. Send (NoteOn (press (items it ! pos it)) 127)) its\<rparr>)\<rparr>)"
  using assms
proof (induction its arbitrary: s p)
  case Nil
  then show ?case by simp
next
  case (Cons it its)
  let ?p1 = "p\<lparr>out_calls := out_calls p @ [Send (NoteOn (press (items it ! pos it)) 127)]\<rparr>"
  let ?s1 = "s\<lparr>outport := Some ?p1\<rparr>"
  from Cons.prems have ne: "items it \<noteq> []" and rest: "\<forall>it \<in> set its. items it \<noteq> []"
    by simp_all
  have l: "light_on (items it ! pos it) s = Done ?s1"
    using Cons.prems(1) by (simp add: light_on_def outport_send_open)
  have "outport ?s1 = Some ?p1" by simp
  from Cons.IH[OF this rest] l ne show ?case
    by (simp add: cycle_next_nonempty)
qed




lemma concat_map_upt_Suc:
  "concat (map G [0..<Suc T]) = G 0 @ concat (map (\<lambda>t. G (Suc t)) [0..<T])"
proof -
  have "[0..<Suc T] = 0 # map Suc [0..<T]"
    by (simp only: upt_conv_Cons[of 0 "Suc T"] zero_less_Suc if_True map_Suc_upt)
  then show ?thesis by (simp only: list.map concat.simps map_map comp_def)
qed

lemma chase_ticks_open:
  assumes "outport s = Some p"
    "\<forall>it \<in> set its. items it \<noteq> [] \<and> pos it < length (items it)"
  shows "chase_ticks T its s =
     Done (s\<lparr>outport := Some (p\<lparr>out_calls := out_calls p @
        concat (map (\<lambda>t.
            map (\<lambda>it. Send (NoteOn (press (items it ! ((pos it + t) mod length (items it)))) 127)) its @
            map (\<lambda>b. Send (NoteOn (press b) 0)) BUTTONS) [0..<T])\<rparr>)\<rparr>)"
  using assms
proof (induction T arbitrary: its s p)
  case 0
  then show ?case by simp
next
  case (Suc T)
  define off where "off = map (\<lambda>b. Send (NoteOn (press b) 0)) BUTTONS"
  define G :: "Button cycle_it list \<Rightarrow> nat \<Rightarrow> out_call list" where "G = (\<lambda>its t.
     map (\<lambda>it. Send (NoteOn (press (items it ! ((pos it + t) mod length (items it)))) 127)) its @ off)"
  let ?on = "map (\<lambda>it. Send (NoteOn (press (items it ! pos it)) 127)) its"
  let ?its1 = "map (\<lambda>it. it\<lparr>pos := (pos it + 1) mod length (items it)\<rparr>) its"
  let ?p1 = "p\<lparr>out_calls := out_calls p @ ?on\<rparr>"
  let ?s1 = "s\<lparr>outport := Some ?p1\<rparr>"
  let ?p2 = "?p1\<lparr>out_calls := out_calls ?p1 @ off\<rparr>"
  let ?s2 = "?s1\<lparr>outport := Some ?p2\<rparr>"
  from Suc.prems have ne: "\<forall>it \<in> set its. items it \<noteq> []" by simp
  have 1: "chase_on_phase its s = Done (?its1, ?s1)"
    using Suc.prems(1) ne by (rule chase_on_phase_open)
  have "outport ?s1 = Some ?p1" by simp
  then have 2: "all_off ?s1 = Done ?s2" unfolding off_def by (rule all_off_open)
  have o2: "outport ?s2 = Some ?p2" by simp
  have inv: "\<forall>it \<in> set ?its1. items it \<noteq> [] \<and> pos it < length (items it)"
  proof
    fix it' assume "it' \<in> set ?its1"
    then obtain it where "it \<in> set its" and e: "it' = it\<lparr>pos := (pos it + 1) mod length (items it)\<rparr>"
      by auto
    with ne have "items it \<noteq> []" by simp
    then show "items it' \<noteq> [] \<and> pos it' < length (items it')" by (simp add: e)
  qed
  have G0: "G its 0 = ?on @ off"
  proof -
    have "map (\<lambda>it. Send (NoteOn (press (items it ! ((pos it + 0) mod length (items it)))) 127)) its = ?on"
      by (rule map_cong) (use Suc.prems(2) in simp_all)
    then show ?thesis by (simp add: G_def)
  qed
  have shift: "G ?its1 t = G its (Suc t)" for t
    by (simp add: G_def comp_def mod_simps)
  have step: "chase_ticks (Suc T) its s = chase_ticks T ?its1 ?s2"
    by (simp add: 1 2)
  have "chase_ticks T ?its1 ?s2 =
     Done (?s2\<lparr>outport := Some (?p2\<lparr>out_calls := out_calls ?p2 @
        concat (map (G ?its1) [0..<T])\<rparr>)\<rparr>)"
    unfolding G_def off_def using Suc.IH[OF o2 inv] unfolding off_def .
  also have "map (G ?its1) [0..<T] = map (\<lambda>t. G its (Suc t)) [0..<T]"
    by (rule arg_cong[where f = "\<lambda>g. map g [0..<T]"]) (rule ext, rule shift)
  finally have "chase_ticks (Suc T) its s =
     Done (?s2\<lparr>outport := Some (?p2\<lparr>out_calls := out_calls ?p2 @
        concat (map (\<lambda>t. G its (Suc t)) [0..<T])\<rparr>)\<rparr>)"
    by (simp only: step)
  also have "?s2\<lparr>outport := Some (?p2\<lparr>out_calls := out_calls ?p2 @
        concat (map (\<lambda>t. G its (Suc t)) [0..<T])\<rparr>)\<rparr> =
      s\<lparr>outport := Some (p\<lparr>out_calls := out_calls p @
        (G its 0 @ concat (map (\<lambda>t. G its (Suc t)) [0..<T]))\<rparr>)\<rparr>"
    by (simp add: G0)
  also have "G its 0 @ concat (map (\<lambda>t. G its (Suc t)) [0..<T]) = concat (map (G its) [0..<Suc T])"
    by (rule concat_map_upt_Suc[symmetric])
  finally show ?case unfolding G_def off_def .
qed



lemma mod_add_cancel_nat: "(a + t) mod m = (b + t) mod m \<Longrightarrow> a mod m = b mod (m::nat)"
proof (induction t)
  case 0
  then show ?case by simp
next
  case (Suc t)
  then have "Suc (a + t) mod m = Suc (b + t) mod m" by simp
  then have "(a + t) mod m = (b + t) mod m"
    by (simp add: mod_Suc split: if_splits)
  then show ?case by (rule Suc.IH)
qed

lemma spaced_inj:
  assumes "0 < k" "n * k \<le> L" "i < n" "j < n"
    "(i * k + t) mod L = (j * k + t) mod (L::nat)"
  shows "i = j"
proof -
  from assms(3,1) have "i * k < n * k" by (rule mult_less_mono1)
  then have i: "i * k < L" using assms(2) by (rule less_le_trans)
  from assms(4,1) have "j * k < n * k" by (rule mult_less_mono1)
  then have j: "j * k < L" using assms(2) by (rule less_le_trans)
  from assms(5) have "(i * k) mod L = (j * k) mod L" by (rule mod_add_cancel_nat)
  with i j have "i * k = j * k" by simp
  with assms(1) show ?thesis by simp
qed

lemma chase_positions_distinct:
  assumes "m = 1 \<or> m = 2 \<or> m = 3 \<or> m = (4::int)"
  shows "distinct (map (\<lambda>i. (i * (12 div nat m) + t) mod 12) [0..<nat m])"
proof -
  from assms have k: "0 < 12 div nat m" "nat m * (12 div nat m) \<le> 12"
    by auto
  have "inj_on (\<lambda>i. (i * (12 div nat m) + t) mod 12) {0..<nat m}"
  proof (rule inj_onI)
    fix i j
    assume "i \<in> {0..<nat m}" "j \<in> {0..<nat m}"
      and e: "(i * (12 div nat m) + t) mod 12 = (j * (12 div nat m) + t) mod 12"
    then have "i < nat m" "j < nat m" by simp_all
    with k show "i = j" using e by (rule spaced_inj)
  qed
  then show ?thesis by (simp add: distinct_map)
qed

lemma distinct_map_nth:
  assumes "distinct xs" "distinct js" "\<forall>j \<in> set js. j < length xs"
  shows "distinct (map ((!) xs) js)"
proof -
  have "inj_on ((!) xs) (set js)"
    using assms(1,3) by (auto simp: inj_on_def nth_eq_iff_index_eq)
  with assms(2) show ?thesis by (simp add: distinct_map)
qed

text \<open>
  C5. For \<open>num_lights\<close> in \<open>{1, 2, 3, 4}\<close>, on a driver with an output port, \<open>chase\<close>
  returns, and what it sends is, tick after tick, the light-on messages for the buttons
  \<open>lit t\<close> under the iterators followed by the light-off messages for all buttons.
  \<open>lit t\<close> holds the buttons at the places \<open>(i * (12 div num_lights) + t) mod 12\<close> of the
  sequence, and at every tick these are \<open>num_lights\<close> buttons with pairwise different
  codes.
\<close>

theorem chase_lights_distinct:
  assumes "num_lights \<in> {1, 2, 3, 4}" "outport s = Some p"
  shows "\<exists>seq lit. chase_seq = Inr seq \<and>
     (\<forall>t. lit t = map (\<lambda>i. seq ! ((i * (12 div nat num_lights) + t) mod 12))
                     [0..<nat num_lights]) \<and>
     (\<forall>t. length (lit t) = nat num_lights \<and> distinct (map press (lit t)) \<and>
          card (set (lit t)) = nat num_lights) \<and>
     chase num_lights ticks s =
       Done (s\<lparr>outport := Some (p\<lparr>out_calls := out_calls p @
          concat (map (\<lambda>t. map (\<lambda>b. Send (NoteOn (press b) 127)) (lit t) @
                           map (\<lambda>b. Send (NoteOn (press b) 0)) BUTTONS)
                      [0..<nat ticks])\<rparr>)\<rparr>)"
proof -
  obtain seq where seq: "chase_seq = Inr seq" by (simp add: chase_seq_value)
  then have l: "length seq = 12" and d: "distinct (map press seq)"
    by (rule chase_seq_props)+
  from l have ne: "seq \<noteq> []" by auto
  from assms(1) have m: "num_lights = 1 \<or> num_lights = 2 \<or> num_lights = 3 \<or> num_lights = 4"
    by simp
  then have n: "chase_num_lights num_lights = num_lights"
    by (auto simp: chase_num_lights_def)
  from m have k: "nat (12 div num_lights) = 12 div nat num_lights" by auto
  define lit where "lit = (\<lambda>t. map (\<lambda>i. seq ! ((i * (12 div nat num_lights) + t) mod 12))
                     [0..<nat num_lights])"
  let ?its = "chase_its seq num_lights"
  have its: "?its = map (\<lambda>i. \<lparr>items = seq, pos = (i * (12 div nat num_lights)) mod 12\<rparr>)
                      [0..<nat num_lights]"
    using chase_its_eq[OF ne, of num_lights] by (simp add: l k)
  have inv: "\<forall>it \<in> set ?its. items it \<noteq> [] \<and> pos it < length (items it)"
    unfolding its using ne l by auto
  have on: "map (\<lambda>it. Send (NoteOn (press (items it ! ((pos it + t) mod length (items it)))) 127)) ?its =
            map (\<lambda>b. Send (NoteOn (press b) 127)) (lit t)" for t
    unfolding its lit_def by (simp add: comp_def l mod_simps)
  have "chase num_lights ticks s = chase_ticks (nat ticks) ?its s"
    by (simp add: chase_def seq n)
  also note chase_ticks_open[OF assms(2) inv, of "nat ticks"]
  finally have run: "chase num_lights ticks s =
       Done (s\<lparr>outport := Some (p\<lparr>out_calls := out_calls p @
          concat (map (\<lambda>t. map (\<lambda>b. Send (NoteOn (press b) 127)) (lit t) @
                           map (\<lambda>b. Send (NoteOn (press b) 0)) BUTTONS)
                      [0..<nat ticks])\<rparr>)\<rparr>)"
    unfolding on .
  have props: "length (lit t) = nat num_lights \<and> distinct (map press (lit t)) \<and>
          card (set (lit t)) = nat num_lights" for t
  proof -
    let ?js = "map (\<lambda>i. (i * (12 div nat num_lights) + t) mod 12) [0..<nat num_lights]"
    have js: "distinct ?js" using m by (rule chase_positions_distinct)
    have "\<forall>j \<in> set ?js. j < length (map press seq)" by (simp add: l)
    with d js have "distinct (map ((!) (map press seq)) ?js)" by (rule distinct_map_nth)
    moreover have "map ((!) (map press seq)) ?js = map press (lit t)"
      by (simp add: lit_def comp_def l)
    ultimately have dp: "distinct (map press (lit t))" by simp
    then have "distinct (lit t)" by (simp add: distinct_map)
    then have "card (set (lit t)) = length (lit t)" by (rule distinct_card)
    with dp show ?thesis by (simp add: lit_def)
  qed
  have lit: "\<forall>t. lit t = map (\<lambda>i. seq ! ((i * (12 div nat num_lights) + t) mod 12))
                     [0..<nat num_lights]"
    by (simp add: lit_def)
  from props have all_props: "\<forall>t. length (lit t) = nat num_lights \<and>
          distinct (map press (lit t)) \<and> card (set (lit t)) = nat num_lights"
    by (rule allI)
  show ?thesis
  proof (rule exI[of _ seq], rule exI[of _ lit], intro conjI)
    show "chase_seq = Inr seq" by (rule seq)
    show "\<forall>t. lit t = map (\<lambda>i. seq ! ((i * (12 div nat num_lights) + t) mod 12))
                     [0..<nat num_lights]" by (rule lit)
    show "\<forall>t. length (lit t) = nat num_lights \<and>
          distinct (map press (lit t)) \<and> card (set (lit t)) = nat num_lights"
      by (rule all_props)
    show "chase num_lights ticks s =
       Done (s\<lparr>outport := Some (p\<lparr>out_calls := out_calls p @
          concat (map (\<lambda>t. map (\<lambda>b. Send (NoteOn (press b) 127)) (lit t) @
                           map (\<lambda>b. Send (NoteOn (press b) 0)) BUTTONS)
                      [0..<nat ticks])\<rparr>)\<rparr>)"
      by (rule run)
  qed
qed

lemma opened_three_in: "(3::int) \<in> {1, 2, 3, 4}"
  by simp

theorem chase_lights_distinct_witness:
  "(3::int) \<in> {1, 2, 3, 4} \<and>
   outport (init\<lparr>outport := Some \<lparr>out_calls = [], out_closed = False\<rparr>\<rparr>) =
     Some \<lparr>out_calls = [], out_closed = False\<rparr> \<and>
   chase 3 1 (init\<lparr>outport := Some \<lparr>out_calls = [], out_closed = False\<rparr>\<rparr>) =
     Done (init\<lparr>outport := Some \<lparr>out_calls =
             map (\<lambda>n. Send (NoteOn n 127)) [8, 74, 59] @
             map (\<lambda>b. Send (NoteOn (press b) 0)) BUTTONS, out_closed = False\<rparr>\<rparr>)"
proof -
  let ?s = "init\<lparr>outport := Some \<lparr>out_calls = [], out_closed = False\<rparr>\<rparr>"
  from chase_lights_distinct[OF opened_three_in opened_outport, of 1]
  obtain seq lit where seq: "chase_seq = Inr seq"
    and lit: "\<forall>t. lit t = map (\<lambda>i. seq ! ((i * (12 div nat 3) + t) mod 12)) [0..<nat 3]"
    and run: "chase 3 1 ?s =
       Done (?s\<lparr>outport := Some (\<lparr>out_calls = [], out_closed = False\<rparr>
          \<lparr>out_calls := out_calls \<lparr>out_calls = [], out_closed = False\<rparr> @
          concat (map (\<lambda>t. map (\<lambda>b. Send (NoteOn (press b) 127)) (lit t) @
                           map (\<lambda>b. Send (NoteOn (press b) 0)) BUTTONS)
                      [0..<nat 1])\<rparr>)\<rparr>)"
    by blast
  from seq have "seq = map ((!) BUTTONS) [0, 1, 2, 3, 7, 14, 18, 17, 16, 15, 11, 4]"
    by (simp add: chase_seq_value)
  then have s: "seq ! 0 = BUTTONS ! 0" "seq ! 4 = BUTTONS ! 7" "seq ! 8 = BUTTONS ! 16"
    by simp_all
  have "[0..<nat 3] = [0, 1, 2]" by (simp add: upt_conv_Cons)
  with lit have "lit 0 = [seq ! 0, seq ! 4, seq ! 8]" by simp
  with s have "map (\<lambda>b. Send (NoteOn (press b) 127)) (lit 0) =
        map (\<lambda>n. Send (NoteOn n 127)) [8, 74, 59]"
    by (simp add: BUTTONS_def)
  with run have "chase 3 1 ?s =
     Done (init\<lparr>outport := Some \<lparr>out_calls =
             map (\<lambda>n. Send (NoteOn n 127)) [8, 74, 59] @
             map (\<lambda>b. Send (NoteOn (press b) 0)) BUTTONS, out_closed = False\<rparr>\<rparr>)"
    by simp
  with opened_three_in opened_outport show ?thesis by simp
qed

subsection \<open>The fader stays in range\<close>

lemma keepsI: "(\<And>s. P s \<Longrightarrow> P (state_of (f s))) \<Longrightarrow> keeps P f"
  by (simp add: keeps_def)

lemma keepsD: "keeps P f \<Longrightarrow> P s \<Longrightarrow> P (state_of (f s))"
  by (simp add: keeps_def)

lemma keeps_and_then:
  assumes "keeps P f" "keeps P g"
  shows "keeps P (\<lambda>s. and_then (f s) g)"
proof (rule keepsI)
  fix s assume "P s"
  with assms(1) have 1: "P (state_of (f s))" by (rule keepsD)
  show "P (state_of (and_then (f s) g))"
  proof (cases "f s")
    case (Done s1)
    with 1 have "P s1" by simp
    with assms(2) have "P (state_of (g s1))" by (rule keepsD)
    with Done show ?thesis by simp
  next
    case (Raised e s1)
    with 1 show ?thesis by simp
  qed
qed

lemma keeps_for_each:
  assumes "\<And>x. keeps P (body x)"
  shows "keeps P (for_each body xs)"
proof (induction xs)
  case Nil
  show ?case by (rule keepsI) simp
next
  case (Cons x xs)
  from assms[of x] Cons have "keeps P (\<lambda>s. and_then (body x s) (for_each body xs))"
    by (rule keeps_and_then)
  then show ?case by (simp add: keeps_def)
qed

lemma keeps_outport_send: "fader_call_ok (Send m) \<Longrightarrow> keeps fader_ok (outport_send m)"
  by (rule keepsI) (simp add: fader_ok_def outport_send_def split: option.splits)

lemma keeps_outport_reset: "keeps fader_ok outport_reset"
  by (rule keepsI) (simp add: fader_ok_def outport_reset_def split: option.splits)

lemma keeps_outport_close: "keeps fader_ok outport_close"
  by (rule keepsI) (simp add: fader_ok_def outport_close_def split: option.splits)

lemma keeps_inport_close: "keeps fader_ok inport_close"
  by (rule keepsI) (simp add: fader_ok_def inport_close_def split: option.splits)

lemma keeps_inport_set_callback: "keeps fader_ok (inport_set_callback cb)"
  by (rule keepsI) (simp add: fader_ok_def inport_set_callback_def split: option.splits)

lemma keeps_light_on: "keeps fader_ok (light_on b)"
  unfolding light_on_def [abs_def] by (rule keeps_outport_send) simp

lemma keeps_light_off: "keeps fader_ok (light_off b)"
  unfolding light_off_def [abs_def] by (rule keeps_outport_send) simp

lemma keeps_fader_set: "keeps fader_ok (fader_set v)"
  by (rule keepsI)
    (simp add: fader_ok_def fader_set_def outport_send_def in_fader_range_def Let_def
      split: option.splits)

lemma keeps_all_off: "keeps fader_ok all_off"
  unfolding all_off_def [abs_def] by (rule keeps_for_each) (rule keeps_light_off)

lemma keeps_all_on: "keeps fader_ok all_on"
  unfolding all_on_def [abs_def] by (rule keeps_for_each) (rule keeps_light_on)

lemma keeps_snake: "keeps fader_ok snake"
  unfolding snake_def [abs_def]
  by (intro keeps_and_then keeps_for_each keeps_light_on keeps_light_off)

lemma keeps_blink: "keeps fader_ok (blink n)"
  unfolding blink_def [abs_def]
  by (intro keeps_for_each keeps_and_then keeps_all_on keeps_all_off)

lemma keeps_char_on: "keeps fader_ok (char_on c)"
proof (cases "CHARACTERS (upper c)")
  case None
  then show ?thesis by (simp add: keeps_def char_on_def)
next
  case (Some indices)
  have "keeps fader_ok (for_each (\<lambda>i. outport_send (NoteOn (press (BUTTONS ! nat i)) 127)) indices)"
    by (rule keeps_for_each) (rule keeps_outport_send, simp)
  then show ?thesis by (simp add: keeps_def char_on_glyph[OF Some])
qed

lemma keeps_countdown: "keeps fader_ok countdown"
  unfolding countdown_def [abs_def]
  by (intro keeps_for_each keeps_and_then keeps_char_on keeps_all_off)


lemma chase_on_phase_keeps:
  "fader_ok s \<Longrightarrow> fader_ok (snd (state_of (chase_on_phase its s)))"
proof (induction its arbitrary: s)
  case Nil
  then show ?case by simp
next
  case (Cons it its)
  show ?case
  proof (cases "cycle_next it")
    case None
    with Cons.prems show ?thesis by simp
  next
    case (Some r)
    obtain button it' where r: "r = (button, it')" by (cases r)
    from Cons.prems have l: "fader_ok (state_of (light_on button s))"
      using keeps_light_on by (rule keepsD[rotated])
    show ?thesis
    proof (cases "light_on button s")
      case (Raised e s')
      with l Some r show ?thesis by simp
    next
      case (Done s')
      with l have "fader_ok s'" by simp
      then have "fader_ok (snd (state_of (chase_on_phase its s')))" by (rule Cons.IH)
      with Some r Done show ?thesis
        by (cases "chase_on_phase its s'") (auto split: prod.splits)
    qed
  qed
qed

lemma keeps_chase_ticks:
  "keeps fader_ok (chase_ticks n its :: 'x state_scheme \<Rightarrow> 'x state_scheme outcome)"
proof (induction n arbitrary: its)
  case 0
  show ?case by (rule keepsI) simp
next
  case (Suc n)
  show ?case
  proof (rule keepsI)
    fix s :: "'x state_scheme"
    assume "fader_ok s"
    then have 1: "fader_ok (snd (state_of (chase_on_phase its s)))"
      by (rule chase_on_phase_keeps)
    show "fader_ok (state_of (chase_ticks (Suc n) its s))"
    proof (cases "chase_on_phase its s")
      case (Raised e r)
      with 1 show ?thesis by (cases r) simp
    next
      case (Done r)
      obtain its' s' where r: "r = (its', s')" by (cases r)
      with 1 Done have "fader_ok s'" by simp
      moreover have "keeps fader_ok
          (\<lambda>s :: 'x state_scheme. and_then (all_off s) (chase_ticks n its'))"
        by (rule keeps_and_then[OF keeps_all_off Suc])
      ultimately have "fader_ok (state_of (and_then (all_off s') (chase_ticks n its')))"
        by (rule keepsD[rotated])
      with Done r show ?thesis by simp
    qed
  qed
qed

lemma keeps_chase:
  "keeps fader_ok (chase num_lights ticks :: 'x state_scheme \<Rightarrow> 'x state_scheme outcome)"
proof (rule keepsI)
  fix s :: "'x state_scheme"
  assume s: "fader_ok s"
  let ?seq = "map ((!) BUTTONS) [0, 1, 2, 3, 7, 14, 18, 17, 16, 15, 11, 4]"
  from keeps_chase_ticks s
  have "fader_ok (state_of (chase_ticks (nat ticks)
          (chase_its ?seq (chase_num_lights num_lights)) s))"
    by (rule keepsD)
  then show "fader_ok (state_of (chase num_lights ticks s))"
    by (simp add: chase_def chase_seq_value)
qed

lemma keeps_open_ports:
  fixes h :: "'x state_scheme hooks"
  assumes "hooks_keep fader_ok h"
  shows "keeps fader_ok (open_ports h)"
proof (rule keepsI)
  fix s :: "'x state_scheme"
  assume s: "fader_ok s"
  let ?s2 = "s\<lparr>inport := Some \<lparr>callback = False, in_closed = False\<rparr>,
               outport := Some \<lparr>out_calls = [], out_closed = False\<rparr>\<rparr>"
  from s have "fader_ok ?s2" by (simp add: fader_ok_def)
  moreover from assms have "keeps fader_ok (on_open h)" by (simp add: hooks_keep_def)
  with keeps_inport_set_callback
  have "keeps fader_ok (\<lambda>s. and_then (inport_set_callback True s) (on_open h))"
    by (rule keeps_and_then)
  ultimately have "fader_ok (state_of (and_then (inport_set_callback True ?s2) (on_open h)))"
    by (rule keepsD[rotated])
  then show "fader_ok (state_of (open_ports h s))" by (simp add: open_ports_def)
qed

lemma keeps_close:
  assumes "hooks_keep fader_ok h"
  shows "keeps fader_ok (close h)"
proof -
  from assms have "keeps fader_ok (on_close h)" by (simp add: hooks_keep_def)
  then show ?thesis
    unfolding close_def [abs_def]
    by (intro keeps_and_then keeps_inport_set_callback keeps_fader_set keeps_all_off
        keeps_outport_reset keeps_inport_close keeps_outport_close)
qed

lemma keeps_message_callback:
  fixes h :: "'x state_scheme hooks"
  assumes "hooks_keep fader_ok h" "pitch_is_14_bit (Message m)"
  shows "keeps fader_ok (message_callback h m)"
proof (rule keepsI)
  fix s :: "'x state_scheme"
  assume s: "fader_ok s"
  from s have pr: "fader_ok (print l s)" for l by (simp add: fader_ok_def print_def)
  show "fader_ok (state_of (message_callback h m s))"
  proof (cases m)
    case (Pitchwheel pitch)
    with assms(2) have "in_fader_range pitch" by simp
    with s have "fader_ok (s\<lparr>p_fader := pitch\<rparr>)" by (simp add: fader_ok_def)
    moreover from assms(1) have "keeps fader_ok (on_fader h pitch)" by (simp add: hooks_keep_def)
    ultimately have "fader_ok (state_of (on_fader h pitch (s\<lparr>p_fader := pitch\<rparr>)))"
      by (rule keepsD[rotated])
    with Pitchwheel show ?thesis by (simp add: message_callback_def)
  next
    case (NoteOn n w)
    from assms(1) have "keeps fader_ok (on_fader_touch h (w \<noteq> 0))"
      and "\<And>b. keeps fader_ok (on_button h b (w \<noteq> 0))"
      by (simp_all add: hooks_keep_def)
    with s have "fader_ok (state_of (on_fader_touch h (w \<noteq> 0) s))"
      and "\<And>b. fader_ok (state_of (on_button h b (w \<noteq> 0) s))"
      by (simp_all add: keeps_def)
    with NoteOn pr show ?thesis
      by (simp add: message_callback_def split: option.splits)
  next
    case (ControlChange control val)
    from assms(1) have "\<And>d. keeps fader_ok (on_rotary h d)" by (simp add: hooks_keep_def)
    with s have "\<And>d. fader_ok (state_of (on_rotary h d s))" by (simp add: keeps_def)
    with ControlChange pr show ?thesis by (simp add: message_callback_def)
  next
    case (OtherMsg t)
    with pr show ?thesis by (simp add: message_callback_def)
  qed
qed

lemma keeps_do_call:
  fixes h :: "'x state_scheme hooks"
  assumes "hooks_keep fader_ok h" "pitch_is_14_bit c"
  shows "keeps fader_ok (do_call h c)"
proof (rule keepsI)
  fix s :: "'x state_scheme"
  assume s: "fader_ok s"
  show "fader_ok (state_of (do_call h c s))"
  proof (cases c)
    case Open
    with keepsD[OF keeps_open_ports[OF assms(1)] s] show ?thesis by simp
  next
    case Close
    with keepsD[OF keeps_close[OF assms(1)] s] show ?thesis by simp
  next
    case (Message m)
    with assms(2) have "pitch_is_14_bit (Message m)" by simp
    with assms(1) have "keeps fader_ok (message_callback h m)" by (rule keeps_message_callback)
    from keepsD[OF this s] Message show ?thesis by simp
  next
    case (Fader_set v)
    with keepsD[OF keeps_fader_set s] show ?thesis by simp
  next
    case (Light_on b)
    with keepsD[OF keeps_light_on s] show ?thesis by simp
  next
    case (Light_off b)
    with keepsD[OF keeps_light_off s] show ?thesis by simp
  next
    case All_on
    with keepsD[OF keeps_all_on s] show ?thesis by simp
  next
    case All_off
    with keepsD[OF keeps_all_off s] show ?thesis by simp
  next
    case Snake
    with keepsD[OF keeps_snake s] show ?thesis by simp
  next
    case (Blink n)
    with keepsD[OF keeps_blink s] show ?thesis by simp
  next
    case (Char_on c)
    with keepsD[OF keeps_char_on s] show ?thesis by simp
  next
    case Countdown
    with keepsD[OF keeps_countdown s] show ?thesis by simp
  next
    case (Chase num_lights ticks)
    with keepsD[OF keeps_chase s] show ?thesis by simp
  qed
qed

lemma run_keeps:
  assumes "hooks_keep fader_ok h"
  shows "fader_ok s \<Longrightarrow> \<forall>c \<in> set cs. pitch_is_14_bit c \<Longrightarrow> fader_ok (run h cs s)"
proof (induction cs arbitrary: s)
  case Nil
  then show ?case by simp
next
  case (Cons c cs)
  from Cons.prems(2) have "pitch_is_14_bit c" by simp
  with assms have "keeps fader_ok (do_call h c)" by (rule keeps_do_call)
  from this Cons.prems(1) have "fader_ok (state_of (do_call h c s))" by (rule keepsD)
  moreover from Cons.prems(2) have "\<forall>c \<in> set cs. pitch_is_14_bit c" by simp
  ultimately have "fader_ok (run h cs (state_of (do_call h c s)))" by (rule Cons.IH)
  then show ?case by simp
qed

lemma TestFaderPort_keeps: "hooks_keep fader_ok TestFaderPort"
proof -
  have pr: "fader_ok (print l s) = fader_ok s" for l and s :: test_state
    by (simp add: fader_ok_def print_def)
  have 1: "keeps fader_ok test_on_open" "keeps fader_ok test_on_close"
    "\<And>t. keeps fader_ok (test_on_fader_touch t)" "\<And>v. keeps fader_ok (test_on_fader v)"
    by (simp_all add: keeps_def test_on_open_def test_on_close_def test_on_fader_touch_def
        test_on_fader_def pr)
  have 2: "keeps fader_ok (test_on_rotary d)" for d
  proof (rule keepsI)
    fix s :: test_state assume "fader_ok s"
    then have s1: "fader_ok (print (Pan_turned (d > 0)) s)" by (simp add: pr)
    from keepsD[OF keeps_fader_set s1] s1
    show "fader_ok (state_of (test_on_rotary d s))"
      by (simp add: test_on_rotary_def Let_def)
  qed
  have 3: "keeps fader_ok (test_on_button b p)" for b p
  proof (rule keepsI)
    fix s :: test_state assume "fader_ok s"
    define s1 where "s1 = print (Button_line (name b) p) s"
    define s2 where "s2 = (if name b = ''Shift'' then s1\<lparr>p_shift := \<not> p_shift s1\<rparr> else s1)"
    define s3 where "s3 = (if name b = ''Mute'' \<and> \<not> p then s2\<lparr>should_exit := True\<rparr> else s2)"
    from \<open>fader_ok s\<close> have "fader_ok s1" by (simp add: pr s1_def)
    then have "fader_ok s2" by (simp add: s2_def fader_ok_def)
    then have s3: "fader_ok s3" by (simp add: s3_def fader_ok_def)
    have "test_on_button b p s =
          (if \<not> cycling s3 then (if p then light_on b s3 else light_off b s3) else Done s3)"
      by (simp only: test_on_button_def s1_def s2_def s3_def Let_def)
    with keepsD[OF keeps_light_on s3, of b] keepsD[OF keeps_light_off s3, of b] s3
    show "fader_ok (state_of (test_on_button b p s))" by simp
  qed
  from 1 2 3 show ?thesis by (simp add: hooks_keep_def TestFaderPort_def)
qed

text \<open>
  C9. The cached fader value is \<open>-8192\<close> at construction. Take hooks that keep \<open>fader_ok\<close>
  (the cache and every fader value sent so far are in \<open>[-8192, 8191]\<close>), a state where
  it holds, and any sequence of calls on the driver (the methods and the inbound
  callback) in which every pitchwheel message carries a signed 14-bit pitch. Then
  \<open>fader_ok\<close> holds after the sequence, whichever calls returned and whichever raised:
  no call caches or sends a fader value out of range.
\<close>

theorem fader_always_in_range:
  assumes "hooks_keep fader_ok h" "fader_ok s" "\<forall>c \<in> set cs. pitch_is_14_bit c"
  shows "fader_ok (run h cs s) \<and> in_fader_range (p_fader (run h cs s)) \<and>
         fader_ok init \<and> p_fader init = - 8192"
proof -
  from assms have "fader_ok (run h cs s)" by (rule run_keeps)
  moreover from this have "in_fader_range (p_fader (run h cs s))" by (simp add: fader_ok_def)
  moreover have "fader_ok init" "p_fader init = - 8192"
    by (simp_all add: fader_ok_def init_def in_fader_range_def)
  ultimately show ?thesis by simp
qed

lemma TestFaderPort_init_ok: "fader_ok TestFaderPort_init"
  by (simp add: fader_ok_def TestFaderPort_init_def in_fader_range_def)

theorem fader_always_in_range_witness:
  "hooks_keep fader_ok TestFaderPort \<and> fader_ok TestFaderPort_init \<and>
   list_all pitch_is_14_bit [Open, Fader_set 9000, Message (Pitchwheel 4095), Close] \<and>
   fader_ok (run TestFaderPort [Open, Fader_set 9000, Message (Pitchwheel 4095), Close]
               TestFaderPort_init)"
proof -
  have c: "\<forall>c \<in> set [Open, Fader_set 9000, Message (Pitchwheel 4095), Close]. pitch_is_14_bit c"
    by (simp add: in_fader_range_def)
  from fader_always_in_range[OF TestFaderPort_keeps TestFaderPort_init_ok c]
  have "fader_ok (run TestFaderPort [Open, Fader_set 9000, Message (Pitchwheel 4095), Close]
               TestFaderPort_init)"
    by simp
  with TestFaderPort_keeps TestFaderPort_init_ok c show ?thesis
    by (simp add: list_all_iff)
qed

end
